theory Spec2Isabelle
  imports Main "HOL-Library.Sublist" "HOL-Library.Char_ord" "HOL-Library.List_Lexorder"
begin

section \<open>Strings\<close>

text \<open>
  A Python string is modelled as a list of characters. A character is an Isabelle
  \<open>char\<close>, read as the code point of the same number (0 to 255), which covers the
  marker line and the French text the program is written for. The character tables
  of Python (\<open>str.isspace\<close>, \<open>str.isalnum\<close>, \<open>str.lower\<close>) are given on that range.
\<close>

definition isspace :: "char \<Rightarrow> bool" where
  "isspace c =
     (let n = (of_char c :: nat)
      in (9 \<le> n \<and> n \<le> 13) \<or> (28 \<le> n \<and> n \<le> 32) \<or> n = 133 \<or> n = 160)"

definition strip :: "string \<Rightarrow> string" where
  "strip s = rev (dropWhile isspace (rev (dropWhile isspace s)))"

text \<open>The marker line: \<open>A\<close> with grave accent is code point 0xC0, \<open>e\<close> with acute accent 0xE9.\<close>

definition marker :: string where
  "marker = CHR 0xC0 # '' savoir '' @ CHR 0xE9 # ''galement dans votre d'' @ CHR 0xE9 # ''partement''"

section \<open>Data model\<close>

record article =
  narrative_paragraph :: string
  transitions_list :: "string list"

record triplet =
  paragraph_a :: string
  transition :: string
  paragraph_b :: string

datatype py_error = IndexError | ReError

section \<open>\<open>extract_articles_from_docx\<close>: segmentation into raw blocks\<close>

text \<open>
  The state of the first loop is the pair \<open>(all_raw_blocks, current_block_content)\<close>.
  \<open>sublist marker text\<close> is Python's \<open>marker in text\<close>.
\<close>

type_synonym seg_state = "string list list \<times> string list"

definition segment_step :: "seg_state \<Rightarrow> string \<Rightarrow> seg_state" where
  "segment_step st para =
     (case st of (all_raw_blocks, current_block_content) \<Rightarrow>
        let text = strip para in
        if sublist marker text then
          ((if current_block_content \<noteq> [] then all_raw_blocks @ [current_block_content]
            else all_raw_blocks), [])
        else if text \<noteq> [] then (all_raw_blocks, current_block_content @ [text])
        else (all_raw_blocks, current_block_content))"

definition segment_finish :: "seg_state \<Rightarrow> string list list" where
  "segment_finish st =
     (case st of (all_raw_blocks, current_block_content) \<Rightarrow>
        if current_block_content \<noteq> [] then all_raw_blocks @ [current_block_content]
        else all_raw_blocks)"

definition segment_blocks :: "string list \<Rightarrow> string list list" where
  "segment_blocks paras = segment_finish (foldl segment_step ([], []) paras)"

text \<open>
  The segmentation in the words of the specification, for comparison: the non-empty
  trimmed lines are cut at every marker line, the marker lines are dropped, and the
  empty pieces are not blocks.
\<close>

fun split_on :: "('a \<Rightarrow> bool) \<Rightarrow> 'a list \<Rightarrow> 'a list list" where
  "split_on P [] = [[]]"
| "split_on P (x # xs) =
     (if P x then [] # split_on P xs
      else (case split_on P xs of [] \<Rightarrow> [[x]] | b # bs \<Rightarrow> (x # b) # bs))"

definition spec_segment :: "string list \<Rightarrow> string list list" where
  "spec_segment paras =
     filter (\<lambda>b. b \<noteq> []) (split_on (sublist marker) (filter (\<lambda>t. t \<noteq> []) (map strip paras)))"

section \<open>\<open>extract_articles_from_docx\<close>: parsing blocks into articles\<close>

text \<open>
  The second loop, over \<open>all_raw_blocks[1:]\<close>. \<open>block[0]\<close> raises \<open>IndexError\<close> on an
  empty block; the length test comes first, as in the source.
\<close>

definition article_of :: "string \<Rightarrow> string list \<Rightarrow> article" where
  "article_of narrative candidates =
     \<lparr>narrative_paragraph = narrative,
      transitions_list = map strip (filter (\<lambda>t. strip t \<noteq> []) candidates)\<rparr>"

fun parse_blocks :: "string list list \<Rightarrow> article list \<Rightarrow> py_error + article list" where
  "parse_blocks [] parsed_articles = Inr parsed_articles"
| "parse_blocks (block # rest) parsed_articles =
     (if length block < 2 then parse_blocks rest parsed_articles
      else (case block of
              [] \<Rightarrow> Inl IndexError
            | narrative # candidates \<Rightarrow>
                parse_blocks rest (parsed_articles @ [article_of narrative candidates])))"

definition articles_from_blocks :: "string list list \<Rightarrow> py_error + article list" where
  "articles_from_blocks all_raw_blocks =
     (if length all_raw_blocks < 2 then Inr [] else parse_blocks (drop 1 all_raw_blocks) [])"

text \<open>
  The document is the list of its paragraph texts, or \<open>None\<close> when it cannot be
  loaded (the source reports the error and returns no article).
\<close>

definition extract_articles_from_docx :: "string list option \<Rightarrow> py_error + article list" where
  "extract_articles_from_docx doc =
     (case doc of None \<Rightarrow> Inr [] | Some paras \<Rightarrow> articles_from_blocks (segment_blocks paras))"

section \<open>\<open>generate_output_files\<close>: the usage cap\<close>

text \<open>
  \<open>transition_usage_tracker\<close> is a \<open>defaultdict(int)\<close> that is only indexed, never
  iterated: a total function with value 0 at an absent key. \<open>duplicates_tracker\<close> is a
  \<open>defaultdict(list)\<close> that is iterated, so it is an association list with the keys in
  the order of their first insertion.
\<close>

record cap_state =
  final_triplets :: "triplet list"
  transition_usage_tracker :: "string \<Rightarrow> int"
  duplicates_tracker :: "(string \<times> triplet list) list"

fun dd_append :: "('k \<times> 'v list) list \<Rightarrow> 'k \<Rightarrow> 'v \<Rightarrow> ('k \<times> 'v list) list" where
  "dd_append [] k v = [(k, [v])]"
| "dd_append ((k', vs) # rest) k v =
     (if k' = k then (k', vs @ [v]) # rest else (k', vs) # dd_append rest k v)"

definition dd_get :: "('k \<times> 'v list) list \<Rightarrow> 'k \<Rightarrow> 'v list" where
  "dd_get d k = (case map_of d k of None \<Rightarrow> [] | Some vs \<Rightarrow> vs)"

definition cap_init :: cap_state where
  "cap_init = \<lparr>final_triplets = [], transition_usage_tracker = (\<lambda>_. 0), duplicates_tracker = []\<rparr>"

definition cap_step :: "int \<Rightarrow> cap_state \<Rightarrow> triplet \<Rightarrow> cap_state" where
  "cap_step max_uses_per_transition st t =
     (let tr = transition t in
      if transition_usage_tracker st tr < max_uses_per_transition then
        st\<lparr>final_triplets := final_triplets st @ [t],
           transition_usage_tracker :=
             (transition_usage_tracker st)(tr := transition_usage_tracker st tr + 1)\<rparr>
      else st\<lparr>duplicates_tracker := dd_append (duplicates_tracker st) tr t\<rparr>)"

definition usage_cap :: "triplet list \<Rightarrow> int \<Rightarrow> cap_state" where
  "usage_cap all_raw_triplets max_uses_per_transition =
     foldl (cap_step max_uses_per_transition) cap_init all_raw_triplets"

text \<open>The number of raw triplets of one transition.\<close>

definition occurrences :: "string \<Rightarrow> triplet list \<Rightarrow> triplet list" where
  "occurrences T ts = filter (\<lambda>t. transition t = T) ts"

section \<open>\<open>generate_output_files\<close>: the reports\<close>

text \<open>Python's \<open>str\<close> of an integer, as an f-string prints it.\<close>

definition digit_char :: "nat \<Rightarrow> char" where
  "digit_char d = char_of (48 + d)"

fun str_nat :: "nat \<Rightarrow> string" where
  "str_nat n = (if n < 10 then [digit_char n] else str_nat (n div 10) @ [digit_char (n mod 10)])"

definition str_int :: "int \<Rightarrow> string" where
  "str_int i = (if i < 0 then CHR ''-'' # str_nat (nat (- i)) else str_nat (nat i))"

definition rejected_line :: "string \<Rightarrow> int \<Rightarrow> int \<Rightarrow> string" where
  "rejected_line tr actual_total_count excess =
     ''Transition: '' @ [CHR 0x27] @ tr @ [CHR 0x27] @ '' used '' @ str_int actual_total_count
       @ '' times (exceeded by '' @ str_int excess @ '')''"

definition rejected_fewshots_content :: "cap_state \<Rightarrow> string list" where
  "rejected_fewshots_content st =
     map (\<lambda>(tr, duplicates).
            rejected_line tr (transition_usage_tracker st tr + int (length duplicates))
              (int (length duplicates)))
       (filter (\<lambda>(tr, duplicates). duplicates \<noteq> []) (duplicates_tracker st))"



section \<open>\<open>extract_all_raw_triplets\<close>: building the pattern\<close>

text \<open>
  Python's tables for case folding and for alphanumeric characters, on the code points
  0 to 255. Under \<open>re.IGNORECASE\<close> a literal matches a character when both have the same
  lower-case form.
\<close>

definition lower :: "char \<Rightarrow> char" where
  "lower c =
     (let n = (of_char c :: nat)
      in if (65 \<le> n \<and> n \<le> 90) \<or> (192 \<le> n \<and> n \<le> 222 \<and> n \<noteq> 215) then char_of (n + 32) else c)"

definition isalnum :: "char \<Rightarrow> bool" where
  "isalnum c =
     (let n = (of_char c :: nat)
      in (48 \<le> n \<and> n \<le> 57) \<or> (65 \<le> n \<and> n \<le> 90) \<or> (97 \<le> n \<and> n \<le> 122)
         \<or> n = 170 \<or> n = 178 \<or> n = 179 \<or> n = 181 \<or> n = 185 \<or> n = 186
         \<or> (188 \<le> n \<and> n \<le> 190) \<or> (192 \<le> n \<and> n \<noteq> 215 \<and> n \<noteq> 247))"

text \<open>The word characters of \<open>\w\<close>: the alphanumeric characters and the underscore.\<close>

definition isword :: "char \<Rightarrow> bool" where
  "isword d = (isalnum d \<or> d = CHR ''_'')"

text \<open>
  \<open>re.escape\<close> (Python 3.7 and later) puts a backslash before each of the characters
  \<open>()[]{}?*+-|^$\.&~#\<close>, the space and the ASCII control characters tab, newline,
  carriage return, vertical tab and form feed. \<open>str.replace\<close> replaces the occurrences
  of a non-empty \<open>old\<close> from left to right, without overlap.
\<close>

definition backslash :: char where
  "backslash = CHR 0x5C"

definition re_special :: "char \<Rightarrow> bool" where
  "re_special c = (c \<in> set (''()[]{}?*+-|^$.&~# '' @ [backslash, CHR 0x09, CHR 0x0A, CHR 0x0D, CHR 0x0B, CHR 0x0C]))"

definition re_escape :: "string \<Rightarrow> string" where
  "re_escape s = concat (map (\<lambda>c. if re_special c then [backslash, c] else [c]) s)"

fun str_replace :: "string \<Rightarrow> string \<Rightarrow> string \<Rightarrow> string" where
  "str_replace [] old new = []"
| "str_replace (c # cs) old new =
     (if old \<noteq> [] \<and> prefix old (c # cs) then new @ str_replace (drop (length old - 1) cs) old new
      else c # str_replace cs old new)"

definition endswith :: "string \<Rightarrow> string \<Rightarrow> bool" where
  "endswith s suf = suffix suf s"

definition elision_pattern :: string where
  "elision_pattern = ''(?:'' @ [backslash] @ ''sque|'' @ [backslash] @ ''squ'' @ [backslash, CHR 0x27, backslash] @ ''w*)''"

definition pattern_str :: "string \<Rightarrow> string" where
  "pattern_str transition_from_list =
     (let p = re_escape transition_from_list;
          p = str_replace p (re_escape ''[XXX]'') ''[^,]*''
      in if endswith p (re_escape '' que'')
         then take (length p - length (re_escape '' que'')) p @ elision_pattern
         else p)"

section \<open>\<open>re.compile\<close>: patterns as syntax trees\<close>

text \<open>
  \<open>re.escape\<close>, \<open>re.compile\<close> and \<open>finditer\<close> belong to Python's library; they are
  modelled here after its documented behaviour.
  The fragment of Python's pattern syntax that \<open>pattern_str\<close> can produce: literal
  characters, escaped characters, the classes \<open>\s\<close> and \<open>\w\<close>, the negated set
  \<open>[^,]\<close>, the greedy star on a single-character item, non-capturing groups and
  alternation. \<open>None\<close> is a pattern outside this fragment (among them the patterns
  Python rejects); \<open>compile_pattern_str\<close> below shows that \<open>pattern_str\<close> never builds
  one.
\<close>

datatype category = CatSpace | CatWord

datatype atom = Lit char | NotIn "char list" | Cat category

datatype regex = Atom atom | Star atom | Seq "regex list" | Alt "regex list"

datatype token = TAtom atom | TStar | TOpen | TClose | TBar

definition escape_atom :: "char \<Rightarrow> atom option" where
  "escape_atom c =
     (if c = CHR ''s'' then Some (Cat CatSpace)
      else if c = CHR ''w'' then Some (Cat CatWord)
      else if (of_char c :: nat) < 128 \<and> isalnum c then None
      else Some (Lit c))"

fun re_lex :: "string \<Rightarrow> token list option" where
  "re_lex [] = Some []"
| "re_lex (c # cs) =
     (if c = backslash then
        (case cs of
           [] \<Rightarrow> None
         | d # ds \<Rightarrow>
             (case escape_atom d of
                None \<Rightarrow> None
              | Some a \<Rightarrow> map_option ((#) (TAtom a)) (re_lex ds)))
      else if c = CHR ''['' then
        (if take 3 cs = ''^,]'' then map_option ((#) (TAtom (NotIn '',''))) (re_lex (drop 3 cs))
         else None)
      else if c = CHR ''('' then
        (if take 2 cs = ''?:'' then map_option ((#) TOpen) (re_lex (drop 2 cs)) else None)
      else if c = CHR '')'' then map_option ((#) TClose) (re_lex cs)
      else if c = CHR ''|'' then map_option ((#) TBar) (re_lex cs)
      else if c = CHR ''*'' then map_option ((#) TStar) (re_lex cs)
      else if c \<in> set ''.^$+?{}]'' then None
      else map_option ((#) (TAtom (Lit c))) (re_lex cs))"

type_synonym frame = "regex list list \<times> regex list"

definition close_frame :: "frame \<Rightarrow> regex" where
  "close_frame f = (case f of (alts, cur) \<Rightarrow> if alts = [] then Seq cur else Alt (map Seq (alts @ [cur])))"

fun re_parse :: "token list \<Rightarrow> frame list \<Rightarrow> regex option" where
  "re_parse [] st = (case st of [f] \<Rightarrow> Some (close_frame f) | _ \<Rightarrow> None)"
| "re_parse (t # ts) [] = None"
| "re_parse (TAtom a # ts) ((alts, cur) # st) = re_parse ts ((alts, cur @ [Atom a]) # st)"
| "re_parse (TStar # ts) ((alts, cur) # st) =
     (if cur = [] then None
      else (case last cur of
              Atom a \<Rightarrow> re_parse ts ((alts, butlast cur @ [Star a]) # st)
            | _ \<Rightarrow> None))"
| "re_parse (TOpen # ts) (f # st) = re_parse ts (([], []) # f # st)"
| "re_parse (TBar # ts) ((alts, cur) # st) = re_parse ts ((alts @ [cur], []) # st)"
| "re_parse (TClose # ts) (f # st) =
     (case st of
        [] \<Rightarrow> None
      | (alts, cur) # st' \<Rightarrow> re_parse ts ((alts, cur @ [close_frame f]) # st'))"

definition re_compile :: "string \<Rightarrow> regex option" where
  "re_compile p = (case re_lex p of None \<Rightarrow> None | Some ts \<Rightarrow> re_parse ts [([], [])])"

section \<open>\<open>finditer\<close>: matching\<close>

text \<open>
  \<open>match_ends r s\<close> lists the lengths of the matches of \<open>r\<close> at the start of \<open>s\<close>
  in the order in which Python's backtracking matcher tries them: a greedy star tries
  the longest run first, an alternation its branches from left to right. \<open>finditer\<close>
  scans from left to right for the first match at the leftmost position, continues at
  the end of that match, and after an empty match does not accept an empty match at the
  same position again (Python 3.7 and later).
\<close>

definition atom_match :: "atom \<Rightarrow> char \<Rightarrow> bool" where
  "atom_match a d =
     (case a of
        Lit c \<Rightarrow> lower d = lower c
      | NotIn cs \<Rightarrow> lower d \<notin> set (map lower cs)
      | Cat CatSpace \<Rightarrow> isspace d
      | Cat CatWord \<Rightarrow> isword d)"

fun match_ends :: "regex \<Rightarrow> string \<Rightarrow> nat list"
  and match_seq :: "regex list \<Rightarrow> string \<Rightarrow> nat list"
  and match_alt :: "regex list \<Rightarrow> string \<Rightarrow> nat list" where
  "match_ends (Atom a) s = (case s of [] \<Rightarrow> [] | d # _ \<Rightarrow> if atom_match a d then [1] else [])"
| "match_ends (Star a) s = rev [0..<Suc (length (takeWhile (atom_match a) s))]"
| "match_ends (Seq rs) s = match_seq rs s"
| "match_ends (Alt rs) s = match_alt rs s"
| "match_seq [] s = [0]"
| "match_seq (r # rs) s =
     concat (map (\<lambda>k. map (\<lambda>j. k + j) (match_seq rs (drop k s))) (match_ends r s))"
| "match_alt [] s = []"
| "match_alt (r # rs) s = match_ends r s @ match_alt rs s"

function finditer_from :: "regex \<Rightarrow> string \<Rightarrow> nat \<Rightarrow> bool \<Rightarrow> (nat \<times> nat) list" where
  "finditer_from r s pos must_advance =
     (if length s < pos then []
      else (case find (\<lambda>k. \<not> must_advance \<or> k \<noteq> 0) (match_ends r (drop pos s)) of
              Some k \<Rightarrow> (pos, pos + k) # finditer_from r s (pos + k) (k = 0)
            | None \<Rightarrow> finditer_from r s (Suc pos) False))"
  by pat_completeness auto
termination
  by (relation "measure (\<lambda>(r, s, pos, adv). 2 * (Suc (length s) - pos) + (if adv then 0 else 1))")
     (auto simp: find_Some_iff)

definition finditer :: "regex \<Rightarrow> string \<Rightarrow> (nat \<times> nat) list" where
  "finditer r s = finditer_from r s 0 False"

section \<open>\<open>extract_all_raw_triplets\<close>: the triplets\<close>

text \<open>The text of a match, \<open>narrative[start:end]\<close>.\<close>

definition matched_transition_in_text :: "string \<Rightarrow> nat \<times> nat \<Rightarrow> string" where
  "matched_transition_in_text narrative span =
     (case span of (start, end) \<Rightarrow> take (end - start) (drop start narrative))"

definition triplet_at :: "string \<Rightarrow> string \<Rightarrow> nat \<times> nat \<Rightarrow> triplet" where
  "triplet_at narrative transition_from_list span =
     (case span of (start, end) \<Rightarrow>
        \<lparr>paragraph_a = strip (take start narrative),
         transition = transition_from_list,
         paragraph_b = strip (drop end narrative)\<rparr>)"

fun extract_loop :: "string \<Rightarrow> string list \<Rightarrow> triplet list \<Rightarrow> py_error + triplet list" where
  "extract_loop narrative [] raw_triplets = Inr raw_triplets"
| "extract_loop narrative (transition_from_list # rest) raw_triplets =
     (if transition_from_list = [] then extract_loop narrative rest raw_triplets
      else (case re_compile (pattern_str transition_from_list) of
              None \<Rightarrow> Inl ReError
            | Some compiled_pattern \<Rightarrow>
                extract_loop narrative rest
                  (raw_triplets @ map (triplet_at narrative transition_from_list)
                                     (finditer compiled_pattern narrative))))"

definition extract_all_raw_triplets :: "string \<Rightarrow> string list \<Rightarrow> py_error + triplet list" where
  "extract_all_raw_triplets narrative transitions =
     extract_loop narrative transitions []"

section \<open>The pattern in the words of the specification\<close>

text \<open>
  The phrase is read from left to right: each occurrence of \<open>[XXX]\<close> is a placeholder,
  any other character is literal. The placeholder matches a greedy run of characters
  other than the comma; a phrase that ends in \<open> que\<close> ends in the alternative of a
  whitespace followed by \<open>que\<close> and a whitespace followed by \<open>qu'\<close> and word
  characters.
\<close>

datatype phrase_unit = UChar char | UPlaceholder

fun spec_units :: "string \<Rightarrow> phrase_unit list" where
  "spec_units [] = []"
| "spec_units (c # cs) =
     (if prefix ''[XXX]'' (c # cs) then UPlaceholder # spec_units (drop 4 cs)
      else UChar c # spec_units cs)"

definition unit_regex :: "phrase_unit \<Rightarrow> regex" where
  "unit_regex u = (case u of UChar c \<Rightarrow> Atom (Lit c) | UPlaceholder \<Rightarrow> Star (NotIn '',''))"

definition elision_regex :: regex where
  "elision_regex =
     Alt [Seq [Atom (Cat CatSpace), Atom (Lit CHR ''q''), Atom (Lit CHR ''u''), Atom (Lit CHR ''e'')],
          Seq [Atom (Cat CatSpace), Atom (Lit CHR ''q''), Atom (Lit CHR ''u''), Atom (Lit CHR 0x27),
               Star (Cat CatWord)]]"

definition spec_regex :: "string \<Rightarrow> regex" where
  "spec_regex phrase =
     (if suffix '' que'' phrase
      then Seq (map unit_regex (spec_units (take (length phrase - 4) phrase)) @ [elision_regex])
      else Seq (map unit_regex (spec_units phrase)))"

text \<open>The text of one unit in the phrase, in the pattern, and its tokens.\<close>

definition unit_src :: "phrase_unit \<Rightarrow> string" where
  "unit_src u = (case u of UChar c \<Rightarrow> [c] | UPlaceholder \<Rightarrow> ''[XXX]'')"

definition unit_str :: "phrase_unit \<Rightarrow> string" where
  "unit_str u = (case u of UChar c \<Rightarrow> (if re_special c then [backslash, c] else [c]) | UPlaceholder \<Rightarrow> ''[^,]*'')"

definition unit_toks :: "phrase_unit \<Rightarrow> token list" where
  "unit_toks u = (case u of UChar c \<Rightarrow> [TAtom (Lit c)] | UPlaceholder \<Rightarrow> [TAtom (NotIn '',''), TStar])"

definition rstr :: "phrase_unit list \<Rightarrow> string" where
  "rstr us = concat (map (\<lambda>u. rev (unit_str u)) us)"

text \<open>
  For the proofs about case: the number of characters before the first comma of a
  string, and a unit of a phrase with its letter in lower case.
\<close>

definition comma_run :: "string \<Rightarrow> nat" where
  "comma_run s = length (takeWhile (\<lambda>d. d \<noteq> CHR '','') s)"

definition unit_fold :: "phrase_unit \<Rightarrow> phrase_unit" where
  "unit_fold u = (case u of UChar c \<Rightarrow> UChar (lower c) | UPlaceholder \<Rightarrow> UPlaceholder)"

section \<open>\<open>simulate_streamlit_app_logic\<close>: the raw triplets of a document\<close>

fun collect_raw_triplets :: "article list \<Rightarrow> triplet list \<Rightarrow> py_error + triplet list" where
  "collect_raw_triplets [] all_raw_triplets = Inr all_raw_triplets"
| "collect_raw_triplets (a # articles) all_raw_triplets =
     (case extract_all_raw_triplets (narrative_paragraph a) (transitions_list a) of
        Inl e \<Rightarrow> Inl e
      | Inr raw_triplets_for_article \<Rightarrow>
          collect_raw_triplets articles (all_raw_triplets @ raw_triplets_for_article))"

definition document_raw_triplets :: "string list option \<Rightarrow> py_error + triplet list" where
  "document_raw_triplets doc =
     (case extract_articles_from_docx doc of
        Inl e \<Rightarrow> Inl e
      | Inr articles \<Rightarrow> collect_raw_triplets articles [])"

text \<open>The triplets of one article as the specification describes them.\<close>

definition spec_triplets :: "string \<Rightarrow> string list \<Rightarrow> triplet list" where
  "spec_triplets narrative transitions =
     concat (map (\<lambda>t. map (triplet_at narrative t) (finditer (spec_regex t) narrative))
               (filter (\<lambda>t. t \<noteq> []) transitions))"

section \<open>\<open>generate_output_files\<close>: the raw-duplicate report and the outputs\<close>

text \<open>
  \<open>all_found_transitions_counts\<close> is a \<open>defaultdict(int)\<close> that is iterated: an
  association list with the keys in the order of their first insertion.
\<close>

fun dd_incr :: "('k \<times> int) list \<Rightarrow> 'k \<Rightarrow> ('k \<times> int) list" where
  "dd_incr [] k = [(k, 1)]"
| "dd_incr ((k', n) # rest) k = (if k' = k then (k', n + 1) # rest else (k', n) # dd_incr rest k)"

definition all_found_transitions_counts :: "triplet list \<Rightarrow> (string \<times> int) list" where
  "all_found_transitions_counts all_raw_triplets =
     foldl (\<lambda>d t. dd_incr d (transition t)) [] all_raw_triplets"

definition rejected_transitions_only_content :: "triplet list \<Rightarrow> string list" where
  "rejected_transitions_only_content all_raw_triplets =
     map (\<lambda>(tr, count). ''Transition: '' @ [CHR 0x27] @ tr @ [CHR 0x27] @ '' used '' @ str_int count @ '' times'')
       (filter (\<lambda>(tr, count). 1 < count) (all_found_transitions_counts all_raw_triplets))"

text \<open>
  The contents of the outputs, each as it is when its file is selected. The
  transitions-only list is \<open>sorted(list(set(...)))\<close>: the order in which Python
  enumerates a set of strings is not fixed, so \<open>unique\<close> is any listing of the set
  without repetition, and the run is a relation. \<open>simulate_streamlit_app_logic\<close>
  calls \<open>generate_output_files\<close> with the default cap of 3.
\<close>

record outputs =
  fewshot_examples :: "triplet list"
  transitions_only :: "string list"
  fewshots_rejected :: "string list"
  transitions_only_rejected :: "string list"

inductive generate_output_files :: "triplet list \<Rightarrow> int \<Rightarrow> outputs \<Rightarrow> bool" where
  "distinct unique \<Longrightarrow>
   set unique = set (map transition (final_triplets (usage_cap all_raw_triplets max_uses_per_transition))) \<Longrightarrow>
   generate_output_files all_raw_triplets max_uses_per_transition
     \<lparr>fewshot_examples = final_triplets (usage_cap all_raw_triplets max_uses_per_transition),
      transitions_only = sort unique,
      fewshots_rejected = rejected_fewshots_content (usage_cap all_raw_triplets max_uses_per_transition),
      transitions_only_rejected = rejected_transitions_only_content all_raw_triplets\<rparr>"

inductive simulate_streamlit_app_logic :: "string list option \<Rightarrow> py_error + outputs \<Rightarrow> bool" where
  "document_raw_triplets doc = Inl e \<Longrightarrow> simulate_streamlit_app_logic doc (Inl e)"
| "document_raw_triplets doc = Inr all_raw_triplets \<Longrightarrow>
   generate_output_files all_raw_triplets 3 out \<Longrightarrow>
   simulate_streamlit_app_logic doc (Inr out)"

section \<open>Example inputs\<close>

definition mk_triplet :: "string \<Rightarrow> string \<Rightarrow> string \<Rightarrow> triplet" where
  "mk_triplet a t b = \<lparr>paragraph_a = a, transition = t, paragraph_b = b\<rparr>"

text \<open>Five raw triplets of the transition \<open>or\<close>, with one of \<open>car\<close> in between.\<close>

definition ex_raw :: "triplet list" where
  "ex_raw = [mk_triplet ''a1'' ''or'' ''b1'', mk_triplet ''a2'' ''or'' ''b2'',
             mk_triplet ''x'' ''car'' ''y'', mk_triplet ''a3'' ''or'' ''b3'',
             mk_triplet ''a4'' ''or'' ''b4'', mk_triplet ''a5'' ''or'' ''b5'']"

text \<open>
  A document: a preamble, an article with a placeholder transition, a block of one
  line, two marker lines in a row, and an article with an elided transition.
\<close>

definition ex_marker_line :: string where
  "ex_marker_line = ''  '' @ marker @ '' :''"

definition ex_paras :: "string list" where
  "ex_paras =
     [''Titre du journal'', ''  '', ''Chapeau'', ex_marker_line,
      ''  Le maire a rejoint Lizy-sur-Ourcq, selon nos informations. '',
      ''a rejoint [XXX], selon'', '''', marker, ''Seul'', marker, marker,
      ''Il est parti parce qu'on l'attendait.'', ''parce que '']"

definition ex_articles :: "article list" where
  "ex_articles =
     [\<lparr>narrative_paragraph = ''Le maire a rejoint Lizy-sur-Ourcq, selon nos informations.'',
       transitions_list = [''a rejoint [XXX], selon'']\<rparr>,
      \<lparr>narrative_paragraph = ''Il est parti parce qu'on l'attendait.'',
       transitions_list = [''parce que'']\<rparr>]"

definition ex_narrative_placeholder :: string where
  "ex_narrative_placeholder = ''Le maire a rejoint Lizy-sur-Ourcq, selon nos informations.''"

definition ex_narrative_elision :: string where
  "ex_narrative_elision = ''Il est parti parce qu'on l'attendait, et parce qu'il pleuvait.''"

text \<open>
  A narrative with the same phrase in two spellings, the raw triplets of the two
  phrases \<open>Par ailleurs\<close> and \<open>par ailleurs\<close> on it, and the outputs of a run, as a
  function of the order in which the set of accepted transitions is enumerated.
\<close>

definition ex_case_narrative :: string where
  "ex_case_narrative = ''Par ailleurs, il pleut. par ailleurs, il vente.''"

definition ex_case_raw :: "triplet list" where
  "ex_case_raw =
     [mk_triplet '''' ''Par ailleurs'' '', il pleut. par ailleurs, il vente.'',
      mk_triplet ''Par ailleurs, il pleut.'' ''Par ailleurs'' '', il vente.'',
      mk_triplet '''' ''par ailleurs'' '', il pleut. par ailleurs, il vente.'',
      mk_triplet ''Par ailleurs, il pleut.'' ''par ailleurs'' '', il vente.'']"

definition ex_outputs :: "string list \<Rightarrow> outputs" where
  "ex_outputs unique =
     \<lparr>fewshot_examples = final_triplets (usage_cap ex_case_raw 1),
      transitions_only = sort unique,
      fewshots_rejected = rejected_fewshots_content (usage_cap ex_case_raw 1),
      transitions_only_rejected = rejected_transitions_only_content ex_case_raw\<rparr>"

definition ex_doc_outputs :: "string list \<Rightarrow> outputs" where
  "ex_doc_outputs unique =
     \<lparr>fewshot_examples =
        [mk_triplet ''Le maire'' ''a rejoint [XXX], selon'' ''nos informations.'',
         mk_triplet ''Il est parti'' ''parce que'' ''l'attendait.''],
      transitions_only = sort unique,
      fewshots_rejected = [],
      transitions_only_rejected = []\<rparr>"

section \<open>Segmentation and article parsing: proofs\<close>

lemma marker_not_in_empty: "\<not> sublist marker []"
  by (simp add: marker_def)

lemma split_on_not_Nil: "split_on P xs \<noteq> []"
  by (induction xs) (auto split: list.splits)

lemma concat_split_on: "concat (split_on P xs) = filter (\<lambda>x. \<not> P x) xs"
  by (induction xs) (auto split: list.splits)

lemma concat_filter_nonempty: "concat (filter (\<lambda>b. b \<noteq> []) bs) = concat bs"
  by (induction bs) auto

lemma segment_fold:
  "segment_finish (foldl segment_step (bs, cur) ps) =
     bs @ filter (\<lambda>b. b \<noteq> [])
            (case split_on (sublist marker) (filter (\<lambda>t. t \<noteq> []) (map strip ps)) of
               [] \<Rightarrow> [cur] | b # rest \<Rightarrow> (cur @ b) # rest)"
proof (induction ps arbitrary: bs cur)
  case Nil
  show ?case by (simp add: segment_finish_def)
next
  case (Cons p ps)
  obtain b rest where sp: "split_on (sublist marker) (filter (\<lambda>t. t \<noteq> []) (map strip ps)) = b # rest"
    using split_on_not_Nil[of "sublist marker" "filter (\<lambda>t. t \<noteq> []) (map strip ps)"]
    by (cases "split_on (sublist marker) (filter (\<lambda>t. t \<noteq> []) (map strip ps))") auto
  consider (m) "sublist marker (strip p)" | (l) "\<not> sublist marker (strip p)" "strip p \<noteq> []"
    | (e) "strip p = []" by blast
  then show ?case
  proof cases
    case m
    then have ne: "strip p \<noteq> []" using marker_not_in_empty by auto
    show ?thesis using m ne sp Cons.IH[of "if cur \<noteq> [] then bs @ [cur] else bs" "[]"]
      by (simp add: segment_step_def)
  next
    case l
    then show ?thesis using sp Cons.IH[of bs "cur @ [strip p]"]
      by (simp add: segment_step_def)
  next
    case e
    then show ?thesis using sp Cons.IH[of bs cur] marker_not_in_empty
      by (simp add: segment_step_def)
  qed
qed

lemma segment_blocks_spec: "segment_blocks ps = spec_segment ps"
  using split_on_not_Nil[of "sublist marker" "filter (\<lambda>t. t \<noteq> []) (map strip ps)"]
  by (simp add: segment_blocks_def spec_segment_def segment_fold split: list.splits)

lemma segment_blocks_concat:
  "concat (segment_blocks ps) = filter (\<lambda>t. t \<noteq> [] \<and> \<not> sublist marker t) (map strip ps)"
  by (simp add: segment_blocks_spec spec_segment_def concat_filter_nonempty concat_split_on conj_commute)

lemma segment_blocks_nonempty: "[] \<notin> set (segment_blocks ps)"
  by (simp add: segment_blocks_spec spec_segment_def)

lemma parse_blocks_eq:
  "parse_blocks bs acc =
     Inr (acc @ map (\<lambda>b. article_of (hd b) (tl b)) (filter (\<lambda>b. 2 \<le> length b) bs))"
  by (induction bs arbitrary: acc) (auto split: list.splits)

lemma articles_from_blocks_eq:
  "articles_from_blocks blocks =
     Inr (map (\<lambda>b. article_of (hd b) (tl b)) (filter (\<lambda>b. 2 \<le> length b) (drop 1 blocks)))"
  by (cases blocks) (auto simp: articles_from_blocks_def parse_blocks_eq)

section \<open>The usage cap and the reports: proofs\<close>

lemma dd_get_append:
  "dd_get (dd_append d k v) k' = (if k' = k then dd_get d k @ [v] else dd_get d k')"
  by (induction d k v rule: dd_append.induct) (auto simp: dd_get_def)



lemma usage_cap_snoc:
  "usage_cap (ts @ [t]) c = cap_step c (usage_cap ts c) t"
  by (simp add: usage_cap_def)

lemma occurrences_snoc:
  "occurrences T (ts @ [t]) = (if transition t = T then occurrences T ts @ [t] else occurrences T ts)"
  by (simp add: occurrences_def)

lemma usage_cap_invariant:
  "occurrences T (final_triplets (usage_cap raw c)) = take (nat c) (occurrences T raw)
       \<and> transition_usage_tracker (usage_cap raw c) T
           = int (length (occurrences T (final_triplets (usage_cap raw c))))
       \<and> dd_get (duplicates_tracker (usage_cap raw c)) T = drop (nat c) (occurrences T raw)"
proof (induction raw rule: rev_induct)
  case Nil
  show ?case by (simp add: usage_cap_def cap_init_def occurrences_def dd_get_def)
next
  case (snoc t ts)
  let ?st = "usage_cap ts c"
  from snoc have f: "occurrences T (final_triplets ?st) = take (nat c) (occurrences T ts)"
    and u: "transition_usage_tracker ?st T = int (length (occurrences T (final_triplets ?st)))"
    and d: "dd_get (duplicates_tracker ?st) T = drop (nat c) (occurrences T ts)"
    by simp_all
  show ?case
  proof (cases "transition t = T")
    case False
    then show ?thesis using f u d
      by (simp add: usage_cap_snoc cap_step_def Let_def occurrences_snoc dd_get_append)
  next
    case True
    show ?thesis
    proof (cases "transition_usage_tracker ?st T < c")
      case lt: True
      then have "length (occurrences T ts) < nat c" using u f by (simp add: min_def split: if_splits)
      then show ?thesis using True lt f u d
        by (simp add: usage_cap_snoc cap_step_def Let_def occurrences_snoc dd_get_append)
    next
      case ge: False
      then have "nat c \<le> length (occurrences T ts)" using u f by (simp add: min_def split: if_splits)
      then show ?thesis using True ge f u d
        by (simp add: usage_cap_snoc cap_step_def Let_def occurrences_snoc dd_get_append)
    qed
  qed
qed

lemma usage_cap_subseq: "subseq (final_triplets (usage_cap raw c)) raw"
proof (induction raw rule: rev_induct)
  case Nil
  show ?case by (simp add: usage_cap_def cap_init_def)
next
  case (snoc t ts)
  then show ?case
    by (auto simp: usage_cap_snoc cap_step_def Let_def intro: subseq_rev_drop_many list_emb_append_mono)
qed








subsection \<open>The cap invariant\<close>

text \<open>
  Claim C1. For every transition \<open>T\<close>, after the capping loop has processed the raw
  triplets in order, the accepted triplets of \<open>T\<close> are the first \<open>cap\<close> occurrences
  of \<open>T\<close> among the raw triplets and \<open>duplicates[T]\<close> holds the remaining ones, both
  in their original order; the accepted triplets are a subsequence of the raw ones.
  For a cap that is not negative the two counts are
  \<open>min(totalOccurrences[T], cap)\<close> and \<open>max(0, totalOccurrences[T] - cap)\<close>.
\<close>

theorem usage_cap_counts:
  "occurrences T (final_triplets (usage_cap raw cap)) = take (nat cap) (occurrences T raw)
   \<and> dd_get (duplicates_tracker (usage_cap raw cap)) T = drop (nat cap) (occurrences T raw)
   \<and> subseq (final_triplets (usage_cap raw cap)) raw
   \<and> (0 \<le> cap \<longrightarrow>
        int (length (occurrences T (final_triplets (usage_cap raw cap))))
          = min (int (length (occurrences T raw))) cap
      \<and> int (length (dd_get (duplicates_tracker (usage_cap raw cap)) T))
          = max 0 (int (length (occurrences T raw)) - cap))"
proof -
  have a: "occurrences T (final_triplets (usage_cap raw cap)) = take (nat cap) (occurrences T raw)"
    and d: "dd_get (duplicates_tracker (usage_cap raw cap)) T = drop (nat cap) (occurrences T raw)"
    using usage_cap_invariant[of T raw cap] by simp_all
  have n: "0 \<le> cap \<Longrightarrow>
        int (length (occurrences T (final_triplets (usage_cap raw cap))))
          = min (int (length (occurrences T raw))) cap
      \<and> int (length (dd_get (duplicates_tracker (usage_cap raw cap)) T))
          = max 0 (int (length (occurrences T raw)) - cap)"
    unfolding a d by (auto simp: min_def max_def)
  show ?thesis using a d n usage_cap_subseq[of raw cap] by blast
qed

theorem usage_cap_counts_witness:
  "(0::int) \<le> 3
   \<and> final_triplets (usage_cap ex_raw 3)
       = [mk_triplet ''a1'' ''or'' ''b1'', mk_triplet ''a2'' ''or'' ''b2'', mk_triplet ''x'' ''car'' ''y'',
          mk_triplet ''a3'' ''or'' ''b3'']
   \<and> occurrences ''or'' (final_triplets (usage_cap ex_raw 3))
       = [mk_triplet ''a1'' ''or'' ''b1'', mk_triplet ''a2'' ''or'' ''b2'', mk_triplet ''a3'' ''or'' ''b3'']
   \<and> dd_get (duplicates_tracker (usage_cap ex_raw 3)) ''or''
       = [mk_triplet ''a4'' ''or'' ''b4'', mk_triplet ''a5'' ''or'' ''b5'']
   \<and> int (length (occurrences ''or'' (final_triplets (usage_cap ex_raw 3)))) = min 5 3
   \<and> int (length (dd_get (duplicates_tracker (usage_cap ex_raw 3)) ''or'')) = max 0 (5 - 3)"
proof -
  have f: "final_triplets (usage_cap ex_raw 3)
       = [mk_triplet ''a1'' ''or'' ''b1'', mk_triplet ''a2'' ''or'' ''b2'', mk_triplet ''x'' ''car'' ''y'',
          mk_triplet ''a3'' ''or'' ''b3'']"
    by code_simp
  have o: "occurrences ''or'' ex_raw
       = [mk_triplet ''a1'' ''or'' ''b1'', mk_triplet ''a2'' ''or'' ''b2'', mk_triplet ''a3'' ''or'' ''b3'',
          mk_triplet ''a4'' ''or'' ''b4'', mk_triplet ''a5'' ''or'' ''b5'']"
    by code_simp
  show ?thesis
    using usage_cap_counts[of "''or''" ex_raw 3] f unfolding o by simp
qed

subsection \<open>The cap-exceeded report\<close>



subsection \<open>The segmenter\<close>

text \<open>
  Claim C5. One step of the segmentation loop, on the trimmed text of a paragraph: a
  line that contains the marker pushes the accumulated block when it is not empty,
  resets the accumulator and is itself added to no block; any other non-empty line is
  appended to the accumulator; an empty line changes nothing. At the end of the
  stream a non-empty accumulator is pushed as the last block. As a whole, the blocks
  are the non-empty pieces between marker lines of the non-empty trimmed lines: no
  block is empty, and the blocks together hold exactly the lines that are neither
  empty nor marker lines, in their order.
\<close>

theorem segmenter_behaviour:
  "(sublist marker (strip p) \<longrightarrow>
      segment_step (bs, cur) p = ((if cur \<noteq> [] then bs @ [cur] else bs), []))
   \<and> (\<not> sublist marker (strip p) \<and> strip p \<noteq> [] \<longrightarrow>
      segment_step (bs, cur) p = (bs, cur @ [strip p]))
   \<and> (strip p = [] \<longrightarrow> segment_step (bs, cur) p = (bs, cur))
   \<and> segment_finish (bs, cur) = (if cur \<noteq> [] then bs @ [cur] else bs)
   \<and> segment_blocks ps = segment_finish (foldl segment_step ([], []) ps)
   \<and> segment_blocks ps = spec_segment ps
   \<and> concat (segment_blocks ps)
       = filter (\<lambda>t. t \<noteq> [] \<and> \<not> sublist marker t) (map strip ps)
   \<and> [] \<notin> set (segment_blocks ps)"
proof -
  have e: "strip p = [] \<Longrightarrow> segment_step (bs, cur) p = (bs, cur)"
    using marker_not_in_empty by (simp add: segment_step_def)
  show ?thesis
    using e segment_blocks_spec[of ps] segment_blocks_concat[of ps] segment_blocks_nonempty[of ps]
    by (simp add: segment_step_def segment_finish_def segment_blocks_def)
qed

theorem segmenter_behaviour_witness:
  "sublist marker (strip ex_marker_line)
   \<and> segment_step ([], [''Titre du journal'', ''Chapeau'']) ex_marker_line
       = ([[''Titre du journal'', ''Chapeau'']], [])
   \<and> segment_step ([[''Seul'']], []) marker = ([[''Seul'']], [])
   \<and> \<not> sublist marker (strip ''Chapeau'') \<and> strip ''Chapeau'' \<noteq> []
   \<and> segment_step ([], [''Titre du journal'']) ''Chapeau'' = ([], [''Titre du journal'', ''Chapeau''])
   \<and> strip ''  '' = []
   \<and> segment_step ([], [''Titre du journal'']) ''  '' = ([], [''Titre du journal''])
   \<and> spec_segment ex_paras =
       [[''Titre du journal'', ''Chapeau''],
        [''Le maire a rejoint Lizy-sur-Ourcq, selon nos informations.'', ''a rejoint [XXX], selon''],
        [''Seul''],
        [''Il est parti parce qu'on l'attendait.'', ''parce que'']]
   \<and> segment_blocks ex_paras =
       [[''Titre du journal'', ''Chapeau''],
        [''Le maire a rejoint Lizy-sur-Ourcq, selon nos informations.'', ''a rejoint [XXX], selon''],
        [''Seul''],
        [''Il est parti parce qu'on l'attendait.'', ''parce que'']]"
proof -
  have m1: "sublist marker (strip ex_marker_line)" by code_simp
  have m2: "sublist marker (strip marker)" by code_simp
  have l1: "\<not> sublist marker (strip ''Chapeau'')" by code_simp
  have l2: "strip ''Chapeau'' = ''Chapeau''" by code_simp
  have e1: "strip ''  '' = []" by code_simp
  have s: "spec_segment ex_paras =
       [[''Titre du journal'', ''Chapeau''],
        [''Le maire a rejoint Lizy-sur-Ourcq, selon nos informations.'', ''a rejoint [XXX], selon''],
        [''Seul''],
        [''Il est parti parce qu'on l'attendait.'', ''parce que'']]"
    by code_simp
  show ?thesis
    using segmenter_behaviour[of ex_marker_line "[]" "[''Titre du journal'', ''Chapeau'']" ex_paras]
      segmenter_behaviour[of marker "[[''Seul'']]" "[]" ex_paras]
      segmenter_behaviour[of "''Chapeau''" "[]" "[''Titre du journal'']" ex_paras]
      segmenter_behaviour[of "''  ''" "[]" "[''Titre du journal'']" ex_paras]
      m1 m2 l1
    unfolding l2 e1 s by simp
qed

subsection \<open>The first block\<close>

text \<open>
  Claim C6. The articles do not depend on the block at index 0, whatever it holds;
  every article is built from a block at an index of at least 1 (one that has at
  least 2 lines); with fewer than 2 blocks there is no article.
\<close>

theorem first_block_never_article:
  "articles_from_blocks (b0 # rest) = articles_from_blocks (b0' # rest)
   \<and> (length blocks < 2 \<longrightarrow> articles_from_blocks blocks = Inr [])
   \<and> articles_from_blocks blocks =
        Inr (map (\<lambda>b. article_of (hd b) (tl b)) (filter (\<lambda>b. 2 \<le> length b) (drop 1 blocks)))
   \<and> (articles_from_blocks blocks = Inr as \<and> a \<in> set as \<longrightarrow>
        (\<exists>i. 1 \<le> i \<and> i < length blocks \<and> 2 \<le> length (blocks ! i)
             \<and> a = article_of (hd (blocks ! i)) (tl (blocks ! i))))
   \<and> extract_articles_from_docx (Some paras) = articles_from_blocks (segment_blocks paras)
   \<and> (length (segment_blocks paras) < 2 \<longrightarrow> extract_articles_from_docx (Some paras) = Inr [])"
proof -
  have i: "\<exists>i. 1 \<le> i \<and> i < length blocks \<and> 2 \<le> length (blocks ! i)
             \<and> a = article_of (hd (blocks ! i)) (tl (blocks ! i))"
    if h: "articles_from_blocks blocks = Inr as" "a \<in> set as"
  proof -
    from h obtain b where b: "b \<in> set (drop 1 blocks)" "2 \<le> length b" "a = article_of (hd b) (tl b)"
      unfolding articles_from_blocks_eq by auto
    from b(1) obtain j where j: "j < length (drop 1 blocks)" "drop 1 blocks ! j = b"
      by (auto simp: in_set_conv_nth)
    then have "Suc j < length blocks" "blocks ! Suc j = b" by auto
    with b show ?thesis by (intro exI[of _ "Suc j"]) auto
  qed
  have l: "length blocks < 2 \<Longrightarrow> articles_from_blocks blocks = Inr []"
    by (simp add: articles_from_blocks_def)
  have p: "length (segment_blocks paras) < 2 \<Longrightarrow> extract_articles_from_docx (Some paras) = Inr []"
    by (simp add: extract_articles_from_docx_def articles_from_blocks_def)
  have r: "articles_from_blocks (b0 # rest) = articles_from_blocks (b0' # rest)"
    by (simp add: articles_from_blocks_eq)
  show ?thesis
    using i l p r articles_from_blocks_eq[of blocks]
    by (simp add: extract_articles_from_docx_def)
qed

theorem first_block_never_article_witness:
  "length (segment_blocks [''Narratif'', ''transition'', marker]) < 2
   \<and> extract_articles_from_docx (Some [''Narratif'', ''transition'', marker]) = Inr []
   \<and> articles_from_blocks (segment_blocks [''Narratif'', ''transition'', marker]) = Inr []
   \<and> extract_articles_from_docx (Some ex_paras) = Inr ex_articles
   \<and> articles_from_blocks (segment_blocks ex_paras) = Inr ex_articles
   \<and> hd ex_articles \<in> set ex_articles
   \<and> (\<exists>i. 1 \<le> i \<and> i < length (segment_blocks ex_paras)
          \<and> 2 \<le> length (segment_blocks ex_paras ! i)
          \<and> hd ex_articles
              = article_of (hd (segment_blocks ex_paras ! i)) (tl (segment_blocks ex_paras ! i)))"
proof -
  have s: "length (segment_blocks [''Narratif'', ''transition'', marker]) < 2" by code_simp
  have a: "articles_from_blocks (segment_blocks ex_paras) = Inr ex_articles" by code_simp
  have h: "hd ex_articles \<in> set ex_articles" by (simp add: ex_articles_def)
  have t1: "extract_articles_from_docx (Some [''Narratif'', ''transition'', marker]) = Inr []
     \<and> articles_from_blocks (segment_blocks [''Narratif'', ''transition'', marker]) = Inr []"
    using first_block_never_article[of "[]" "[]" "[]"
        "segment_blocks [''Narratif'', ''transition'', marker]" "[]" "hd ex_articles"
        "[''Narratif'', ''transition'', marker]"] s
    by blast
  have t2: "extract_articles_from_docx (Some ex_paras) = Inr ex_articles
     \<and> (\<exists>i. 1 \<le> i \<and> i < length (segment_blocks ex_paras)
          \<and> 2 \<le> length (segment_blocks ex_paras ! i)
          \<and> hd ex_articles
              = article_of (hd (segment_blocks ex_paras ! i)) (tl (segment_blocks ex_paras ! i)))"
    using first_block_never_article[of "[]" "[]" "[]" "segment_blocks ex_paras" ex_articles
        "hd ex_articles" ex_paras] a h
    by metis
  show ?thesis using s a h t1 t2 by blast
qed

subsection \<open>Malformed blocks\<close>

text \<open>
  Claim C7. A block with fewer than 2 lines, at an index of at least 1, yields no
  article and no error: the result is the one without that block, the other blocks
  are parsed in their order, and the parser never returns an error.
\<close>

theorem malformed_block_skipped:
  "(length b < 2 \<longrightarrow>
      articles_from_blocks (b0 # pre @ b # post) = articles_from_blocks (b0 # pre @ post))
   \<and> (\<exists>as. articles_from_blocks blocks = Inr as)
   \<and> (\<exists>as. extract_articles_from_docx doc = Inr as)"
  by (cases doc) (simp_all add: extract_articles_from_docx_def articles_from_blocks_eq)

theorem malformed_block_skipped_witness:
  "length [''Seul''] < 2
   \<and> articles_from_blocks [[''Titre''], [''N1'', ''t1''], [''Seul''], [''N2'', ''t2'', ''t3'']]
       = articles_from_blocks [[''Titre''], [''N1'', ''t1''], [''N2'', ''t2'', ''t3'']]
   \<and> articles_from_blocks [[''Titre''], [''N1'', ''t1''], [''Seul''], [''N2'', ''t2'', ''t3'']]
       = Inr [\<lparr>narrative_paragraph = ''N1'', transitions_list = [''t1'']\<rparr>,
              \<lparr>narrative_paragraph = ''N2'', transitions_list = [''t2'', ''t3'']\<rparr>]"
proof -
  have a: "articles_from_blocks [[''Titre''], [''N1'', ''t1''], [''N2'', ''t2'', ''t3'']]
       = Inr [\<lparr>narrative_paragraph = ''N1'', transitions_list = [''t1'']\<rparr>,
              \<lparr>narrative_paragraph = ''N2'', transitions_list = [''t2'', ''t3'']\<rparr>]"
    by code_simp
  show ?thesis
    using malformed_block_skipped[of "[''Seul'']" "[''Titre'']" "[[''N1'', ''t1'']]"
        "[[''N2'', ''t2'', ''t3'']]" "[]" None] a
    by simp
qed

section \<open>The compiled pattern: proofs\<close>

lemma re_escape_Nil [simp]: "re_escape [] = []"
  by (simp add: re_escape_def)

lemma re_escape_Cons:
  "re_escape (c # cs) = (if re_special c then [backslash, c] else [c]) @ re_escape cs"
  by (simp add: re_escape_def)

lemma re_escape_append: "re_escape (xs @ ys) = re_escape xs @ re_escape ys"
  by (simp add: re_escape_def)

lemma re_escape_placeholder:
  "re_escape ''[XXX]'' = backslash # ''[XXX'' @ [backslash, CHR '']'']"
  by (simp add: re_escape_def re_special_def backslash_def)

lemma special_backslash: "re_special backslash"
  by (simp add: re_special_def)

lemma special_bracket: "re_special CHR ''[''" "re_special CHR '']''" "\<not> re_special CHR ''X''"
  by (simp_all add: re_special_def backslash_def)

lemma re_escape_no_bracket: "re_escape cs \<noteq> CHR ''['' # r"
  by (cases cs) (auto simp: re_escape_Cons special_bracket backslash_def)

lemma re_escape_XXX:
  assumes "prefix (''XXX'' @ [backslash, CHR '']'']) (re_escape cs)"
  shows "prefix ''XXX]'' cs"
proof -
  have X: "\<And>x r R. prefix (CHR ''X'' # R) (re_escape (x # r)) \<Longrightarrow> x = CHR ''X'' \<and> prefix R (re_escape r)"
    by (auto simp: re_escape_Cons backslash_def special_bracket split: if_splits)
  have B: "\<And>x r. prefix [backslash, CHR '']''] (re_escape (x # r)) \<Longrightarrow> x = CHR '']''"
    by (auto simp: re_escape_Cons special_backslash split: if_splits)
  from assms obtain x1 r1 where c1: "cs = x1 # r1" by (cases cs) auto
  with assms X[of "''XX'' @ [backslash, CHR '']'']" x1 r1]
  have p1: "x1 = CHR ''X''" "prefix (''XX'' @ [backslash, CHR '']'']) (re_escape r1)" by auto
  then obtain x2 r2 where c2: "r1 = x2 # r2" by (cases r1) auto
  with p1 X[of "''X'' @ [backslash, CHR '']'']" x2 r2]
  have p2: "x2 = CHR ''X''" "prefix (''X'' @ [backslash, CHR '']'']) (re_escape r2)" by auto
  then obtain x3 r3 where c3: "r2 = x3 # r3" by (cases r2) auto
  with p2 X[of "[backslash, CHR '']'']" x3 r3]
  have p3: "x3 = CHR ''X''" "prefix [backslash, CHR '']''] (re_escape r3)" by auto
  then obtain x4 r4 where c4: "r3 = x4 # r4" by (cases r3) auto
  with p3 B[of x4 r4] have "x4 = CHR '']''" by auto
  with c1 c2 c3 c4 p1 p2 p3 show ?thesis by simp
qed

lemma str_replace_hit:
  "old \<noteq> [] \<Longrightarrow> str_replace (old @ R) old new = new @ str_replace R old new"
  by (cases old) auto

lemma replace_placeholder:
  "str_replace (re_escape t) (re_escape ''[XXX]'') ''[^,]*'' = concat (map unit_str (spec_units t))"
proof (induction t rule: spec_units.induct)
  case 1
  show ?case by simp
next
  case (2 c cs)
  show ?case
  proof (cases "prefix ''[XXX]'' (c # cs)")
    case True
    then obtain rest where r: "c # cs = ''[XXX]'' @ rest" by (auto simp: prefix_def)
    then have d: "drop 4 cs = rest" by auto
    have e: "re_escape (c # cs) = re_escape ''[XXX]'' @ re_escape rest"
      unfolding r by (rule re_escape_append)
    have h: "str_replace (re_escape (c # cs)) (re_escape ''[XXX]'') ''[^,]*''
               = ''[^,]*'' @ str_replace (re_escape rest) (re_escape ''[XXX]'') ''[^,]*''"
      unfolding e by (rule str_replace_hit) (simp add: re_escape_placeholder)
    have u: "spec_units (c # cs) = UPlaceholder # spec_units rest"
      using True d by simp
    show ?thesis
      unfolding h u using 2(1)[OF True] d by (simp add: unit_str_def)
  next
    case False
    have n1: "\<not> prefix (re_escape ''[XXX]'') (re_escape (c # cs))"
    proof
      assume p: "prefix (re_escape ''[XXX]'') (re_escape (c # cs))"
      then have "prefix (backslash # ''[XXX'' @ [backslash, CHR '']''])
                   ((if re_special c then [backslash, c] else [c]) @ re_escape cs)"
        unfolding re_escape_placeholder by (simp only: re_escape_Cons)
      then have "c = CHR ''['' \<and> prefix (''XXX'' @ [backslash, CHR '']'']) (re_escape cs)"
        using special_backslash by (auto split: if_splits)
      with re_escape_XXX[of cs] False show False by auto
    qed
    have n2: "re_special c \<Longrightarrow> \<not> prefix (re_escape ''[XXX]'') (c # re_escape cs)"
      using re_escape_no_bracket[of cs]
      by (cases "re_escape cs") (auto simp: re_escape_placeholder)
    show ?thesis
    proof (cases "re_special c")
      case True
      have "str_replace (re_escape (c # cs)) (re_escape ''[XXX]'') ''[^,]*''
              = backslash # str_replace (c # re_escape cs) (re_escape ''[XXX]'') ''[^,]*''"
        using n1 True by (simp add: re_escape_Cons)
      also have "\<dots> = backslash # c # str_replace (re_escape cs) (re_escape ''[XXX]'') ''[^,]*''"
        using n2[OF True] by simp
      finally show ?thesis using 2(2)[OF False] False True by (auto simp: unit_str_def)
    next
      case F: False
      have "str_replace (re_escape (c # cs)) (re_escape ''[XXX]'') ''[^,]*''
              = c # str_replace (re_escape cs) (re_escape ''[XXX]'') ''[^,]*''"
        using n1 F by (simp add: re_escape_Cons)
      then show ?thesis using 2(2)[OF False] False F by (auto simp: unit_str_def)
    qed
  qed
qed

lemma escape_atom_special: "re_special c \<Longrightarrow> escape_atom c = Some (Lit c)"
  by (auto simp: re_special_def escape_atom_def isalnum_def backslash_def)

lemma lex_plain:
  "\<not> re_special c \<Longrightarrow> re_lex (c # r) = map_option ((#) (TAtom (Lit c))) (re_lex r)"
  by (auto simp: re_special_def backslash_def)

lemma lex_unit:
  "re_lex (unit_str u @ r) = map_option ((@) (unit_toks u)) (re_lex r)"
proof (cases u)
  case (UChar c)
  show ?thesis
  proof (cases "re_special c")
    case True
    then show ?thesis using UChar escape_atom_special[OF True]
      by (cases "re_lex r") (simp_all add: unit_str_def unit_toks_def)
  next
    case False
    then show ?thesis using UChar lex_plain[OF False, of r]
      by (cases "re_lex r") (simp_all add: unit_str_def unit_toks_def)
  qed
next
  case UPlaceholder
  then show ?thesis
    by (cases "re_lex r") (simp_all add: unit_str_def unit_toks_def backslash_def)
qed

lemma lex_units:
  "re_lex (concat (map unit_str us) @ r) = map_option ((@) (concat (map unit_toks us))) (re_lex r)"
proof (induction us)
  case Nil
  show ?case by (simp add: option.map_ident)
next
  case (Cons u us)
  show ?case
    using lex_unit[of u "concat (map unit_str us) @ r"] Cons
    by (cases "re_lex r") simp_all
qed

lemma parse_units:
  "re_parse (concat (map unit_toks us) @ ts) ((alts, cur) # st)
     = re_parse ts ((alts, cur @ map unit_regex us) # st)"
proof (induction us arbitrary: cur)
  case Nil
  show ?case by simp
next
  case (Cons u us)
  show ?case
    using Cons[of "cur @ [unit_regex u]"]
    by (cases u) (simp_all add: unit_toks_def unit_regex_def)
qed

lemma lex_elision:
  "re_lex elision_pattern =
     Some [TOpen, TAtom (Cat CatSpace), TAtom (Lit CHR ''q''), TAtom (Lit CHR ''u''),
           TAtom (Lit CHR ''e''), TBar, TAtom (Cat CatSpace), TAtom (Lit CHR ''q''),
           TAtom (Lit CHR ''u''), TAtom (Lit CHR 0x27), TAtom (Cat CatWord), TStar, TClose]"
  by code_simp

lemma compile_units:
  "re_compile (concat (map unit_str us)) = Some (Seq (map unit_regex us))"
  using lex_units[of us "[]"] parse_units[of us "[]" "[]" "[]" "[]"]
  by (simp add: re_compile_def close_frame_def)

lemma compile_units_elision:
  "re_compile (concat (map unit_str us) @ elision_pattern)
     = Some (Seq (map unit_regex us @ [elision_regex]))"
  using lex_units[of us elision_pattern]
    parse_units[of us "[TOpen, TAtom (Cat CatSpace), TAtom (Lit CHR ''q''), TAtom (Lit CHR ''u''),
           TAtom (Lit CHR ''e''), TBar, TAtom (Cat CatSpace), TAtom (Lit CHR ''q''),
           TAtom (Lit CHR ''u''), TAtom (Lit CHR 0x27), TAtom (Cat CatWord), TStar, TClose]" "[]" "[]" "[]"]
  by (simp add: re_compile_def lex_elision close_frame_def elision_regex_def)

lemma units_src: "concat (map unit_src (spec_units t)) = t"
proof (induction t rule: spec_units.induct)
  case 1
  show ?case by simp
next
  case (2 c cs)
  show ?case
  proof (cases "prefix ''[XXX]'' (c # cs)")
    case True
    then obtain rest where r: "c # cs = ''[XXX]'' @ rest" by (auto simp: prefix_def)
    then have d: "drop 4 cs = rest" by auto
    have "spec_units (c # cs) = UPlaceholder # spec_units rest" using True d by simp
    then show ?thesis using 2(1)[OF True] d r by (simp add: unit_src_def)
  next
    case False
    then show ?thesis using 2(2)[OF False] by (auto simp: unit_src_def)
  qed
qed

lemma prefix_XXX_que: "prefix ''XXX]'' (cs @ '' que'') \<Longrightarrow> prefix ''XXX]'' cs"
proof -
  assume "prefix ''XXX]'' (cs @ '' que'')"
  then consider "prefix ''XXX]'' cs" | p' where "''XXX]'' = cs @ p'" "p' \<noteq> []" "prefix p' '' que''"
    unfolding prefix_append by (cases "\<exists>us. ''XXX]'' = cs @ us \<and> us \<noteq> []") auto
  then show ?thesis
  proof cases
    case 1
    then show ?thesis .
  next
    case 2
    from 2(2,3) have "hd p' = CHR '' ''" by (cases p') auto
    with 2(2) have "CHR '' '' \<in> set p'" by (cases p') auto
    then have "CHR '' '' \<in> set (cs @ p')" by simp
    then have "CHR '' '' \<in> set ''XXX]''" unfolding 2(1)[symmetric] .
    then show ?thesis by simp
  qed
qed

lemma spec_units_que: "spec_units (t @ '' que'') = spec_units t @ map UChar '' que''"
proof (induction t rule: spec_units.induct)
  case 1
  show ?case by simp
next
  case (2 c cs)
  show ?case
  proof (cases "prefix ''[XXX]'' (c # cs)")
    case True
    then obtain rest where r: "c # cs = ''[XXX]'' @ rest" by (auto simp: prefix_def)
    then have d: "drop 4 cs = rest" and d': "drop 4 (cs @ '' que'') = rest @ '' que''" by auto
    have p: "prefix ''[XXX]'' (c # cs @ '' que'')" using r by auto
    have "spec_units (c # cs @ '' que'') = UPlaceholder # spec_units (rest @ '' que'')"
      using p d' by simp
    moreover have "spec_units (c # cs) = UPlaceholder # spec_units rest" using True d by simp
    ultimately show ?thesis using 2(1)[OF True] d by simp
  next
    case False
    then have "\<not> prefix ''[XXX]'' (c # cs @ '' que'')"
      using prefix_XXX_que[of cs] by auto
    then have "spec_units (c # cs @ '' que'') = UChar c # spec_units (cs @ '' que'')" by auto
    moreover have "spec_units (c # cs) = UChar c # spec_units cs" using False by auto
    ultimately show ?thesis using 2(2)[OF False] by simp
  qed
qed

lemma rev_units: "rev (concat (map unit_str us)) = rstr (rev us)"
  by (simp add: rstr_def rev_concat rev_map comp_def)

lemma rstr_step_plain:
  assumes "\<not> re_special c" "prefix (c # w) (rstr ru)"
  shows "\<exists>r'. ru = UChar c # r' \<and> prefix w (rstr r')"
proof (cases ru)
  case Nil
  with assms show ?thesis by (simp add: rstr_def)
next
  case (Cons u r')
  show ?thesis
  proof (cases u)
    case (UChar d)
    with assms Cons show ?thesis by (auto simp: rstr_def unit_str_def split: if_splits)
  next
    case UPlaceholder
    with assms Cons show ?thesis by (auto simp: rstr_def unit_str_def re_special_def)
  qed
qed

lemma rstr_step_special:
  assumes "re_special c" "c \<noteq> CHR ''*''" "prefix (c # backslash # w) (rstr ru)"
  shows "\<exists>r'. ru = UChar c # r' \<and> prefix w (rstr r')"
proof (cases ru)
  case Nil
  with assms show ?thesis by (simp add: rstr_def)
next
  case (Cons u r')
  show ?thesis
  proof (cases u)
    case (UChar d)
    with assms Cons show ?thesis by (auto simp: rstr_def unit_str_def split: if_splits)
  next
    case UPlaceholder
    with assms Cons show ?thesis by (auto simp: rstr_def unit_str_def)
  qed
qed

lemma escape_que: "re_escape '' que'' = backslash # '' que''"
  by (simp add: re_escape_def re_special_def backslash_def)

lemma endswith_que:
  "suffix (re_escape '' que'') (concat (map unit_str (spec_units t))) \<longleftrightarrow> suffix '' que'' t"
proof
  assume "suffix '' que'' t"
  then obtain t' where t: "t = t' @ '' que''" by (auto simp: suffix_def)
  show "suffix (re_escape '' que'') (concat (map unit_str (spec_units t)))"
    unfolding t spec_units_que escape_que
    by (simp add: unit_str_def re_special_def backslash_def suffix_def)
next
  assume "suffix (re_escape '' que'') (concat (map unit_str (spec_units t)))"
  then have p: "prefix (CHR ''e'' # CHR ''u'' # CHR ''q'' # CHR '' '' # backslash # [])
                  (rstr (rev (spec_units t)))"
    unfolding suffix_to_prefix rev_units escape_que by simp
  have ns: "\<not> re_special CHR ''e''" "\<not> re_special CHR ''u''" "\<not> re_special CHR ''q''"
       "re_special CHR '' ''"
    by (simp_all add: re_special_def backslash_def)
  from rstr_step_plain[OF ns(1) p] obtain r1 where
    r1: "rev (spec_units t) = UChar CHR ''e'' # r1" "prefix (CHR ''u'' # CHR ''q'' # CHR '' '' # backslash # []) (rstr r1)"
    by blast
  from rstr_step_plain[OF ns(2) r1(2)] obtain r2 where
    r2: "r1 = UChar CHR ''u'' # r2" "prefix (CHR ''q'' # CHR '' '' # backslash # []) (rstr r2)"
    by blast
  from rstr_step_plain[OF ns(3) r2(2)] obtain r3 where
    r3: "r2 = UChar CHR ''q'' # r3" "prefix (CHR '' '' # backslash # []) (rstr r3)"
    by blast
  from rstr_step_special[OF ns(4) _ r3(2)] obtain r4 where
    r4: "r3 = UChar CHR '' '' # r4"
    by auto
  have "spec_units t = rev r4 @ map UChar '' que''"
    using r1(1) r2(1) r3(1) r4 by (simp add: rev_swap[symmetric] del: rev_swap)
  then have "concat (map unit_src (spec_units t)) = concat (map unit_src (rev r4)) @ '' que''"
    by (simp add: unit_src_def)
  then show "suffix '' que'' t" unfolding units_src by (simp add: suffix_def)
qed

lemma compile_pattern_str: "re_compile (pattern_str t) = Some (spec_regex t)"
proof (cases "suffix '' que'' t")
  case True
  then obtain t' where t: "t = t' @ '' que''" by (auto simp: suffix_def)
  have tk: "take (length t - 4) t = t'" unfolding t by simp
  have u: "concat (map unit_str (spec_units t)) = concat (map unit_str (spec_units t')) @ re_escape '' que''"
    unfolding t spec_units_que escape_que
    by (simp add: unit_str_def re_special_def backslash_def)
  have "pattern_str t = concat (map unit_str (spec_units t')) @ elision_pattern"
    using True endswith_que[of t]
    by (simp add: pattern_str_def Let_def replace_placeholder endswith_def u)
  then show ?thesis
    using True by (simp add: compile_units_elision spec_regex_def tk)
next
  case False
  then have "pattern_str t = concat (map unit_str (spec_units t))"
    using endswith_que[of t]
    by (simp add: pattern_str_def Let_def replace_placeholder endswith_def)
  then show ?thesis
    using False by (simp add: compile_units spec_regex_def)
qed

section \<open>Matching: proofs\<close>

lemma of_char_lower:
  "of_char (lower c) = (let n = (of_char c :: nat)
      in if (65 \<le> n \<and> n \<le> 90) \<or> (192 \<le> n \<and> n \<le> 222 \<and> n \<noteq> 215) then n + 32 else n)"
  by (simp add: lower_def Let_def)

lemma lower_eq_iff: "lower c = d \<longleftrightarrow> (of_char (lower c) :: nat) = of_char d"
  by (metis of_char_eq_iff)

lemma lower_comma: "lower d = CHR '','' \<longleftrightarrow> d = CHR '',''"
  unfolding lower_eq_iff of_char_lower
  by (auto simp: Let_def of_char_eq_iff[symmetric, where 'a = nat] simp del: of_char_eq_iff)

lemma lower_q: "lower CHR ''q'' = CHR ''q''" "lower CHR ''u'' = CHR ''u''" "lower CHR ''e'' = CHR ''e''"
  "lower CHR 0x27 = CHR 0x27" "lower CHR '','' = CHR '',''"
  by (simp_all add: lower_def)

lemma atom_match_not_comma: "atom_match (NotIn '','') d = (d \<noteq> CHR '','')"
  by (simp add: atom_match_def lower_comma lower_q)

lemma match_placeholder:
  "match_ends (Star (NotIn '','')) s = rev [0..<Suc (length (takeWhile (\<lambda>d. d \<noteq> CHR '','') s))]"
proof -
  have "atom_match (NotIn '','') = (\<lambda>d. d \<noteq> CHR '','')"
    by (rule ext) (rule atom_match_not_comma)
  then show ?thesis by simp
qed

lemma atom_match_simps:
  "atom_match (Lit c) d = (lower d = lower c)"
  "atom_match (Cat CatSpace) d = isspace d"
  "atom_match (Cat CatWord) d = isword d"
  by (simp_all add: atom_match_def isword_def)

lemma match_seq_single: "match_seq [r] s = match_ends r s"
  by (simp add: concat_map_singleton)

lemma match_seq_atom:
  "match_seq (Atom a # r # rs) (d # s) = (if atom_match a d then map Suc (match_seq (r # rs) s) else [])"
  "match_seq (Atom a # rs) [] = []"
  by (simp_all add: comp_def)

lemma match_elision_que:
  assumes "isspace sp" "lower a = CHR ''q''" "lower b = CHR ''u''" "lower c = CHR ''e''"
  shows "match_ends elision_regex (sp # a # b # c # rest) = [4]"
  using assms by (simp add: elision_regex_def atom_match_simps lower_q)

lemma match_elision_qu:
  assumes "isspace sp" "lower a = CHR ''q''" "lower b = CHR ''u''"
  shows "match_ends elision_regex (sp # a # b # CHR 0x27 # rest)
           = map (\<lambda>k. 4 + k) (rev [0..<Suc (length (takeWhile isword rest))])"
proof -
  have w: "atom_match (Cat CatWord) = isword"
    by (rule ext) (simp add: atom_match_simps)
  have "match_ends elision_regex (sp # a # b # CHR 0x27 # rest)
          = map Suc (map Suc (map Suc (map Suc (match_ends (Star (Cat CatWord)) rest))))"
    using assms
    by (simp only: elision_regex_def match_ends.simps match_alt.simps match_seq_atom match_seq_single
          atom_match_simps lower_q append_Nil2)
       (simp add: lower_q)
  also have "\<dots> = map (\<lambda>k. 4 + k) (rev [0..<Suc (length (takeWhile isword rest))])"
    by (simp add: w comp_def del: upt_Suc)
  finally show ?thesis .
qed

lemma extract_loop_eq:
  "extract_loop n ts acc = Inr (acc @ spec_triplets n ts)"
proof (induction ts arbitrary: acc)
  case Nil
  show ?case by (simp add: spec_triplets_def)
next
  case (Cons t ts)
  show ?case
    using Cons[of acc] Cons[of "acc @ map (triplet_at n t) (finditer (spec_regex t) n)"]
    by (simp add: compile_pattern_str spec_triplets_def)
qed

lemma extract_all_eq: "extract_all_raw_triplets n ts = Inr (spec_triplets n ts)"
  by (simp add: extract_all_raw_triplets_def extract_loop_eq)

lemma collect_eq:
  "collect_raw_triplets as acc
     = Inr (acc @ concat (map (\<lambda>a. spec_triplets (narrative_paragraph a) (transitions_list a)) as))"
  by (induction as arbitrary: acc) (simp_all add: extract_all_eq)

lemma transition_triplet_at: "transition (triplet_at n t span) = t"
  by (cases span) (simp add: triplet_at_def)

lemma spec_triplets_member:
  "x \<in> set (spec_triplets n ts) \<Longrightarrow>
     transition x \<in> set ts \<and> transition x \<noteq> []
     \<and> (\<exists>span \<in> set (finditer (spec_regex (transition x)) n). x = triplet_at n (transition x) span)"
  by (auto simp: spec_triplets_def transition_triplet_at)

lemma spec_units_plain: "CHR ''['' \<notin> set t \<Longrightarrow> spec_units t = map UChar t"
  by (induction t) auto

lemma match_seq_lits:
  "map lower t1 = map lower t2 \<Longrightarrow>
     match_seq (map (\<lambda>c. Atom (Lit c)) t1 @ tail) s = match_seq (map (\<lambda>c. Atom (Lit c)) t2 @ tail) s"
proof (induction t1 arbitrary: t2 s)
  case Nil
  then show ?case by simp
next
  case (Cons c t1)
  then obtain d t2' where t2: "t2 = d # t2'" "lower c = lower d" "map lower t1 = map lower t2'"
    by (cases t2) auto
  have "match_ends (Atom (Lit c)) s = match_ends (Atom (Lit d)) s"
    using t2(2) by (simp add: atom_match_simps split: list.splits)
  then show ?case using Cons.IH[OF t2(3)] t2(1) by simp
qed

lemma finditer_from_cong:
  "(\<And>x. match_ends r1 x = match_ends r2 x) \<Longrightarrow>
     finditer_from r1 s pos adv = finditer_from r2 s pos adv"
proof (induction r1 s pos adv rule: finditer_from.induct)
  case (1 r s pos adv)
  have m: "match_ends r (drop pos s) = match_ends r2 (drop pos s)" using 1(3) by simp
  note ih_none = 1(1) and ih_some = 1(2) and eqv = 1(3)
  have L: "finditer_from r s pos adv =
     (if length s < pos then []
      else (case find (\<lambda>k. \<not> adv \<or> k \<noteq> 0) (match_ends r (drop pos s)) of
              Some k \<Rightarrow> (pos, pos + k) # finditer_from r s (pos + k) (k = 0)
            | None \<Rightarrow> finditer_from r s (Suc pos) False))"
    by (rule finditer_from.simps)
  have R: "finditer_from r2 s pos adv =
     (if length s < pos then []
      else (case find (\<lambda>k. \<not> adv \<or> k \<noteq> 0) (match_ends r2 (drop pos s)) of
              Some k \<Rightarrow> (pos, pos + k) # finditer_from r2 s (pos + k) (k = 0)
            | None \<Rightarrow> finditer_from r2 s (Suc pos) False))"
    by (rule finditer_from.simps)
  show ?case
  proof (cases "length s < pos")
    case True
    then show ?thesis unfolding L R by simp
  next
    case False
    then have nl: "\<not> length s < pos" .
    show ?thesis
    proof (cases "find (\<lambda>k. \<not> adv \<or> k \<noteq> 0) (match_ends r (drop pos s))")
      case None
      then show ?thesis
        unfolding L R using nl ih_none[OF nl None eqv] m
        by (simp del: finditer_from.simps)
    next
      case (Some k)
      then show ?thesis
        unfolding L R using nl ih_some[OF nl Some eqv] m
        by (simp del: finditer_from.simps)
    qed
  qed
qed

lemma prefix_XXX_append:
  assumes "prefix ''XXX]'' (cs @ r)" "r = [] \<or> hd r \<notin> set ''XXX]''"
  shows "prefix ''XXX]'' cs"
proof -
  from assms(1) consider "prefix ''XXX]'' cs" | p' where "''XXX]'' = cs @ p'" "p' \<noteq> []" "prefix p' r"
    unfolding prefix_append by (cases "\<exists>us. ''XXX]'' = cs @ us \<and> us \<noteq> []") auto
  then show ?thesis
  proof cases
    case 1
    then show ?thesis .
  next
    case 2
    from 2(2,3) have "r \<noteq> []" "hd p' = hd r" by (cases p'; cases r; auto)+
    with assms(2) have n: "hd p' \<notin> set ''XXX]''" by auto
    have "hd p' \<in> set p'" using 2(2) by simp
    then have "hd p' \<in> set (cs @ p')" by simp
    then have "hd p' \<in> set ''XXX]''" unfolding 2(1)[symmetric] .
    with n show ?thesis by blast
  qed
qed

lemma spec_units_occurrence:
  "spec_units (a @ ''[XXX]'' @ b) = spec_units a @ UPlaceholder # spec_units b"
proof (induction a rule: spec_units.induct)
  case 1
  show ?case by simp
next
  case (2 c cs)
  show ?case
  proof (cases "prefix ''[XXX]'' (c # cs)")
    case True
    then obtain rest where r: "c # cs = ''[XXX]'' @ rest" by (auto simp: prefix_def)
    then have d: "drop 4 cs = rest" by auto
    have h: "\<And>y. spec_units (''[XXX]'' @ y) = UPlaceholder # spec_units y" by simp
    have "(c # cs) @ ''[XXX]'' @ b = ''[XXX]'' @ (rest @ ''[XXX]'' @ b)" unfolding r by simp
    then have "spec_units ((c # cs) @ ''[XXX]'' @ b) = UPlaceholder # spec_units (rest @ ''[XXX]'' @ b)"
      by (simp only: h)
    moreover have "spec_units (c # cs) = UPlaceholder # spec_units rest"
      unfolding r by (simp only: h)
    ultimately show ?thesis using 2(1)[OF True] unfolding d by simp
  next
    case False
    then have "\<not> prefix ''[XXX]'' (c # cs @ ''[XXX]'' @ b)"
      using prefix_XXX_append[of cs "''[XXX]'' @ b"] by auto
    then have "spec_units (c # cs @ ''[XXX]'' @ b) = UChar c # spec_units (cs @ ''[XXX]'' @ b)" by auto
    moreover have "spec_units (c # cs) = UChar c # spec_units cs" using False by auto
    ultimately show ?thesis using 2(2)[OF False] by simp
  qed
qed

subsection \<open>The placeholder\<close>

text \<open>
  Claim C3. The compiled pattern of a phrase is the pattern of the specification: read
  from left to right, every occurrence of \<open>[XXX]\<close> in the phrase is a placeholder and
  every other character a literal. A placeholder is the greedy star of "any character
  but the comma": at a position it matches every run of at most as many characters as
  stand there before the next comma, the longest first. The phrase
  \<open>a rejoint [XXX], selon\<close> matches \<open>a rejoint Lizy-sur-Ourcq, selon\<close> in the
  narrative, and the transition of the triplet is the phrase itself.
\<close>

theorem placeholder_matches_run:
  "re_compile (pattern_str phrase) = Some (spec_regex phrase)
   \<and> spec_units (a @ ''[XXX]'' @ b) = spec_units a @ UPlaceholder # spec_units b
   \<and> unit_regex UPlaceholder = Star (NotIn '','')
   \<and> match_ends (Star (NotIn '','')) s
       = rev [0..<Suc (length (takeWhile (\<lambda>d. d \<noteq> CHR '','') s))]
   \<and> map (matched_transition_in_text ex_narrative_placeholder)
         (finditer (spec_regex ''a rejoint [XXX], selon'') ex_narrative_placeholder)
       = [''a rejoint Lizy-sur-Ourcq, selon'']
   \<and> extract_all_raw_triplets ex_narrative_placeholder [''a rejoint [XXX], selon'']
       = Inr [\<lparr>paragraph_a = ''Le maire'', transition = ''a rejoint [XXX], selon'',
               paragraph_b = ''nos informations.''\<rparr>]"
proof -
  have m: "map (matched_transition_in_text ex_narrative_placeholder)
         (finditer (spec_regex ''a rejoint [XXX], selon'') ex_narrative_placeholder)
       = [''a rejoint Lizy-sur-Ourcq, selon'']"
    by code_simp
  have e: "extract_all_raw_triplets ex_narrative_placeholder [''a rejoint [XXX], selon'']
       = Inr [\<lparr>paragraph_a = ''Le maire'', transition = ''a rejoint [XXX], selon'',
               paragraph_b = ''nos informations.''\<rparr>]"
    by code_simp
  show ?thesis
    using compile_pattern_str[of phrase] spec_units_occurrence[of a b] match_placeholder[of s] m e
    by (simp add: unit_regex_def)
qed

theorem placeholder_matches_run_witness:
  "re_compile (pattern_str ''a rejoint [XXX], selon'')
     = Some (Seq (map (\<lambda>c. Atom (Lit c)) ''a rejoint '' @ [Star (NotIn '','')]
                  @ map (\<lambda>c. Atom (Lit c)) '', selon''))
   \<and> spec_units (''a rejoint '' @ ''[XXX]'' @ '', selon'')
       = map UChar ''a rejoint '' @ UPlaceholder # map UChar '', selon''
   \<and> match_ends (Star (NotIn '','')) ''Lizy-sur-Ourcq, selon'' = rev [0..<15]"
proof -
  have r: "spec_regex ''a rejoint [XXX], selon''
     = Seq (map (\<lambda>c. Atom (Lit c)) ''a rejoint '' @ [Star (NotIn '','')]
                  @ map (\<lambda>c. Atom (Lit c)) '', selon'')"
    by code_simp
  have u: "spec_units ''a rejoint '' = map UChar ''a rejoint ''"
      "spec_units '', selon'' = map UChar '', selon''"
    by code_simp+
  have t: "Suc (length (takeWhile (\<lambda>d. d \<noteq> CHR '','') ''Lizy-sur-Ourcq, selon'')) = 15"
    by code_simp
  show ?thesis
    using placeholder_matches_run[of "''a rejoint [XXX], selon''" "''a rejoint ''" "'', selon''"
        "''Lizy-sur-Ourcq, selon''"]
    unfolding r u t by simp
qed

subsection \<open>The elision\<close>

text \<open>
  Claim C4. The compiled pattern of a phrase that ends in \<open> que\<close> ends in the
  alternative \<open>elision_regex\<close> in place of these four characters. The alternative
  accepts a whitespace followed by \<open>que\<close> (in any case), and a whitespace followed by
  \<open>qu'\<close> and a run of word characters, the longest run first. The phrase
  \<open>parce que\<close> matches \<open>parce qu'on\<close> and \<open>parce qu'il\<close> in a narrative, and
  \<open>parce que\<close> itself.
\<close>

theorem elision_tolerance:
  "(suffix '' que'' phrase \<longrightarrow>
      re_compile (pattern_str phrase)
        = Some (Seq (map unit_regex (spec_units (take (length phrase - 4) phrase)) @ [elision_regex])))
   \<and> (isspace sp \<and> lower a = CHR ''q'' \<and> lower b = CHR ''u'' \<and> lower c = CHR ''e'' \<longrightarrow>
        match_ends elision_regex (sp # a # b # c # rest) = [4])
   \<and> (isspace sp \<and> lower a = CHR ''q'' \<and> lower b = CHR ''u'' \<longrightarrow>
        match_ends elision_regex (sp # a # b # CHR 0x27 # rest)
          = map (\<lambda>k. 4 + k) (rev [0..<Suc (length (takeWhile isword rest))]))
   \<and> map (matched_transition_in_text ex_narrative_elision)
         (finditer (spec_regex ''parce que'') ex_narrative_elision)
       = [''parce qu'on'', ''parce qu'il'']
   \<and> map (matched_transition_in_text ''Il dort parce que la nuit tombe.'')
         (finditer (spec_regex ''parce que'') ''Il dort parce que la nuit tombe.'')
       = [''parce que'']"
proof -
  have m1: "map (matched_transition_in_text ex_narrative_elision)
         (finditer (spec_regex ''parce que'') ex_narrative_elision)
       = [''parce qu'on'', ''parce qu'il'']"
    by code_simp
  have m2: "map (matched_transition_in_text ''Il dort parce que la nuit tombe.'')
         (finditer (spec_regex ''parce que'') ''Il dort parce que la nuit tombe.'')
       = [''parce que'']"
    by code_simp
  have c: "suffix '' que'' phrase \<Longrightarrow>
      re_compile (pattern_str phrase)
        = Some (Seq (map unit_regex (spec_units (take (length phrase - 4) phrase)) @ [elision_regex]))"
    by (simp add: compile_pattern_str spec_regex_def)
  show ?thesis
    using c m1 m2 match_elision_que[of sp a b c rest] match_elision_qu[of sp a b rest]
    by blast
qed

theorem elision_tolerance_witness:
  "suffix '' que'' ''parce que''
   \<and> re_compile (pattern_str ''parce que'')
       = Some (Seq (map (\<lambda>c. Atom (Lit c)) ''parce'' @ [elision_regex]))
   \<and> isspace CHR '' '' \<and> lower CHR ''Q'' = CHR ''q'' \<and> lower CHR ''u'' = CHR ''u''
   \<and> lower CHR ''E'' = CHR ''e''
   \<and> match_ends elision_regex '' Que la nuit'' = [4]
   \<and> match_ends elision_regex '' Qu'on sait'' = [6, 5, 4]"
proof -
  have s: "suffix '' que'' ''parce que''" by code_simp
  have u: "map unit_regex (spec_units (take (length ''parce que'' - 4) ''parce que''))
           = map (\<lambda>c. Atom (Lit c)) ''parce''"
    by code_simp
  have l: "isspace CHR '' ''" "lower CHR ''Q'' = CHR ''q''" "lower CHR ''u'' = CHR ''u''"
      "lower CHR ''E'' = CHR ''e''" "lower CHR ''e'' = CHR ''e''"
    by code_simp+
  have t: "map (\<lambda>k. 4 + k) (rev [0..<Suc (length (takeWhile isword ''on sait''))]) = [6, 5, 4]"
    by code_simp
  show ?thesis
    using elision_tolerance[of "''parce que''" "CHR '' ''" "CHR ''Q''" "CHR ''u''" "CHR ''e''" "'' la nuit''"]
      elision_tolerance[of "''parce que''" "CHR '' ''" "CHR ''Q''" "CHR ''u''" "CHR ''E''" "''on sait''"]
      s l
    unfolding u t by simp
qed

section \<open>Triplets, keys and runs: proofs\<close>

subsection \<open>The transition of a triplet\<close>

text \<open>
  Claim C2. The triplets of an article are, for each non-empty phrase of its
  transitions list in order and each match of the phrase's pattern in the narrative,
  one triplet whose \<open>transition\<close> is that phrase, whatever text the match covers:
  every triplet's transition is an entry of the transitions list of its article,
  character for character. In the example document the matched texts are
  \<open>a rejoint Lizy-sur-Ourcq, selon\<close> and \<open>parce qu'on\<close>, the transitions
  \<open>a rejoint [XXX], selon\<close> and \<open>parce que\<close>.
\<close>

theorem transition_is_canonical:
  "extract_all_raw_triplets narrative transitions = Inr (spec_triplets narrative transitions)
   \<and> transition (triplet_at narrative phrase span) = phrase
   \<and> (x \<in> set (spec_triplets narrative transitions) \<longrightarrow>
        transition x \<in> set transitions \<and> transition x \<noteq> []
        \<and> (\<exists>span \<in> set (finditer (spec_regex (transition x)) narrative).
              x = triplet_at narrative (transition x) span))
   \<and> (extract_articles_from_docx doc = Inr articles \<longrightarrow>
        document_raw_triplets doc
          = Inr (concat (map (\<lambda>a. spec_triplets (narrative_paragraph a) (transitions_list a)) articles)))
   \<and> (extract_articles_from_docx doc = Inr articles \<and> document_raw_triplets doc = Inr raw
        \<and> x \<in> set raw \<longrightarrow>
        (\<exists>a \<in> set articles. transition x \<in> set (transitions_list a)
           \<and> (\<exists>span \<in> set (finditer (spec_regex (transition x)) (narrative_paragraph a)).
                 x = triplet_at (narrative_paragraph a) (transition x) span)))"
proof -
  have d: "document_raw_triplets doc
          = Inr (concat (map (\<lambda>a. spec_triplets (narrative_paragraph a) (transitions_list a)) articles))"
    if "extract_articles_from_docx doc = Inr articles"
    using that by (simp add: document_raw_triplets_def collect_eq)
  have m: "\<exists>a \<in> set articles. transition x \<in> set (transitions_list a)
           \<and> (\<exists>span \<in> set (finditer (spec_regex (transition x)) (narrative_paragraph a)).
                 x = triplet_at (narrative_paragraph a) (transition x) span)"
    if h: "extract_articles_from_docx doc = Inr articles" "document_raw_triplets doc = Inr raw" "x \<in> set raw"
  proof -
    from d[OF h(1)] h(2,3) obtain a where
      a: "a \<in> set articles" "x \<in> set (spec_triplets (narrative_paragraph a) (transitions_list a))"
      by auto
    with spec_triplets_member[OF a(2)] show ?thesis by blast
  qed
  show ?thesis
    using extract_all_eq[of narrative transitions] transition_triplet_at[of narrative phrase span]
      spec_triplets_member[of x narrative transitions] d m
    by blast
qed

theorem transition_is_canonical_witness:
  "extract_articles_from_docx (Some ex_paras) = Inr ex_articles
   \<and> document_raw_triplets (Some ex_paras)
       = Inr [\<lparr>paragraph_a = ''Le maire'', transition = ''a rejoint [XXX], selon'',
                paragraph_b = ''nos informations.''\<rparr>,
              \<lparr>paragraph_a = ''Il est parti'', transition = ''parce que'',
                paragraph_b = ''l'attendait.''\<rparr>]
   \<and> map (matched_transition_in_text (narrative_paragraph (hd ex_articles)))
         (finditer (spec_regex ''a rejoint [XXX], selon'') (narrative_paragraph (hd ex_articles)))
       = [''a rejoint Lizy-sur-Ourcq, selon'']
   \<and> map (matched_transition_in_text (narrative_paragraph (last ex_articles)))
         (finditer (spec_regex ''parce que'') (narrative_paragraph (last ex_articles)))
       = [''parce qu'on'']
   \<and> mk_triplet ''Le maire'' ''a rejoint [XXX], selon'' ''nos informations.''
       \<in> set (spec_triplets ex_narrative_placeholder [''a rejoint [XXX], selon''])
   \<and> transition (mk_triplet ''Le maire'' ''a rejoint [XXX], selon'' ''nos informations.'')
       \<in> set [''a rejoint [XXX], selon'']"
proof -
  have a: "extract_articles_from_docx (Some ex_paras) = Inr ex_articles" by code_simp
  have c: "concat (map (\<lambda>a. spec_triplets (narrative_paragraph a) (transitions_list a)) ex_articles)
       = [\<lparr>paragraph_a = ''Le maire'', transition = ''a rejoint [XXX], selon'',
                paragraph_b = ''nos informations.''\<rparr>,
              \<lparr>paragraph_a = ''Il est parti'', transition = ''parce que'',
                paragraph_b = ''l'attendait.''\<rparr>]"
    by code_simp
  have m1: "map (matched_transition_in_text (narrative_paragraph (hd ex_articles)))
         (finditer (spec_regex ''a rejoint [XXX], selon'') (narrative_paragraph (hd ex_articles)))
       = [''a rejoint Lizy-sur-Ourcq, selon'']"
    by code_simp
  have m2: "map (matched_transition_in_text (narrative_paragraph (last ex_articles)))
         (finditer (spec_regex ''parce que'') (narrative_paragraph (last ex_articles)))
       = [''parce qu'on'']"
    by code_simp
  have s: "spec_triplets ex_narrative_placeholder [''a rejoint [XXX], selon'']
       = [mk_triplet ''Le maire'' ''a rejoint [XXX], selon'' ''nos informations.'']"
    by code_simp
  show ?thesis
    using transition_is_canonical[of ex_narrative_placeholder "[''a rejoint [XXX], selon'']"
        "''a rejoint [XXX], selon''" "(9, 40)"
        "mk_triplet ''Le maire'' ''a rejoint [XXX], selon'' ''nos informations.''"
        "Some ex_paras" ex_articles "[]"] a m1 m2
    unfolding c s by simp
qed

lemma lits_of_plain:
  "CHR ''['' \<notin> set t \<Longrightarrow> map unit_regex (spec_units t) = map (\<lambda>c. Atom (Lit c)) t"
  by (simp add: spec_units_plain unit_regex_def comp_def)

lemma same_matches:
  assumes "map lower t1 = map lower t2" "CHR ''['' \<notin> set t1" "CHR ''['' \<notin> set t2"
    "suffix '' que'' t1 \<longleftrightarrow> suffix '' que'' t2"
  shows "match_ends (spec_regex t1) s = match_ends (spec_regex t2) s"
proof -
  have len: "length t1 = length t2" using assms(1) by (metis length_map)
  show ?thesis
  proof (cases "suffix '' que'' t1")
    case True
    let ?b1 = "take (length t1 - 4) t1" and ?b2 = "take (length t2 - 4) t2"
    have l: "map lower ?b1 = map lower ?b2" using assms(1) len by (simp add: take_map[symmetric])
    have n: "CHR ''['' \<notin> set ?b1" "CHR ''['' \<notin> set ?b2"
      using assms(2,3) by (auto dest: in_set_takeD)
    show ?thesis
      using True assms(4) match_seq_lits[OF l, of "[elision_regex]" s]
      by (simp add: spec_regex_def lits_of_plain[OF n(1)] lits_of_plain[OF n(2)])
  next
    case False
    show ?thesis
      using False assms(4) match_seq_lits[OF assms(1), of "[]" s]
      by (simp add: spec_regex_def lits_of_plain[OF assms(2)] lits_of_plain[OF assms(3)])
  qed
qed

lemma same_spans:
  assumes "map lower t1 = map lower t2" "CHR ''['' \<notin> set t1" "CHR ''['' \<notin> set t2"
    "suffix '' que'' t1 \<longleftrightarrow> suffix '' que'' t2"
  shows "finditer (spec_regex t1) n = finditer (spec_regex t2) n"
  unfolding finditer_def
  by (rule finditer_from_cong) (rule same_matches[OF assms])

lemma occurrences_filter_other:
  "t1 \<noteq> t2 \<Longrightarrow> occurrences t1 (filter (\<lambda>x. transition x \<noteq> t2) raw) = occurrences t1 raw"
  by (induction raw) (auto simp: occurrences_def)

subsection \<open>The first match on a spelling of the phrase\<close>

lemma match_bound:
  "x \<in> set (match_ends r s) \<Longrightarrow> x \<le> length s"
  "x \<in> set (match_seq rs s) \<Longrightarrow> x \<le> length s"
  "x \<in> set (match_alt rs s) \<Longrightarrow> x \<le> length s"
proof (induction r s and rs s and rs s arbitrary: x and x and x rule: match_ends_match_seq_match_alt.induct)
  case (1 a s)
  then show ?case by (auto split: list.splits if_splits)
next
  case (2 a s)
  have "length (takeWhile (atom_match a) s) \<le> length s" by (rule length_takeWhile_le)
  with 2 show ?case by auto
next
  case (6 r rs s)
  from 6(3) obtain k j where kj: "k \<in> set (match_ends r s)" "j \<in> set (match_seq rs (drop k s))" "x = k + j"
    by auto
  from 6(1)[OF kj(1)] 6(2)[OF kj(1) kj(2)] kj(3) show ?case by auto
qed auto

lemma match_seq_atom_gen:
  "match_seq (Atom a # rs) (d # s) = (if atom_match a d then map Suc (match_seq rs s) else [])"
  "match_seq (Atom a # rs) [] = []"
  by simp_all

lemma match_seq_star_set:
  "x \<in> set (match_seq (Star a # rs) s) \<longleftrightarrow>
     (\<exists>j y. j \<le> length (takeWhile (atom_match a) s) \<and> y \<in> set (match_seq rs (drop j s)) \<and> x = j + y)"
proof -
  let ?r = "length (takeWhile (atom_match a) s)"
  have "set (match_seq (Star a # rs) s)
          = (\<Union>j\<in>{0..?r}. (\<lambda>y. j + y) ` set (match_seq rs (drop j s)))"
    by (simp del: upt_Suc add: atLeastLessThanSuc_atLeastAtMost)
  then show ?thesis by auto
qed

lemma takeWhile_drop_le:
  "k \<le> length (takeWhile P s) \<Longrightarrow> takeWhile P (drop k s) = drop k (takeWhile P s)"
proof (induction s arbitrary: k)
  case Nil
  then show ?case by simp
next
  case (Cons a s)
  then show ?case by (cases k) (auto split: if_splits)
qed

lemma comma_run_drop: "k \<le> comma_run s \<Longrightarrow> comma_run (drop k s) = comma_run s - k"
  by (simp add: comma_run_def takeWhile_drop_le)

lemma takeWhile_le_index:
  assumes "i < length xs" "\<not> P (xs ! i)"
  shows "length (takeWhile P xs) \<le> i"
proof (rule ccontr)
  assume "\<not> length (takeWhile P xs) \<le> i"
  then have l: "i < length (takeWhile P xs)" by simp
  then have "takeWhile P xs ! i = xs ! i" by (rule takeWhile_nth)
  moreover have "takeWhile P xs ! i \<in> set (takeWhile P xs)" using l by simp
  ultimately have "P (xs ! i)" by (metis set_takeWhileD)
  with assms(2) show False by simp
qed

lemma comma_run_at_comma:
  assumes "k \<le> comma_run s" "k < length s" "s ! k = CHR '',''"
  shows "k = comma_run s"
  using assms takeWhile_le_index[of k s "\<lambda>d. d \<noteq> CHR '',''"]
  by (simp add: comma_run_def)

lemma comma_run_not_comma:
  assumes "k \<le> comma_run s" "k < length s" "s ! k \<noteq> CHR '',''"
  shows "Suc k \<le> comma_run s"
proof (rule ccontr)
  assume "\<not> Suc k \<le> comma_run s"
  with assms(1) have e: "k = comma_run s" by simp
  then have "length (takeWhile (\<lambda>d. d \<noteq> CHR '','') s) < length s"
    using assms(2) by (simp add: comma_run_def)
  from nth_length_takeWhile[OF this] e assms(3) show False by (simp add: comma_run_def)
qed

lemma concat_desc_hd:
  fixes f :: "nat \<Rightarrow> 'a list"
  shows "concat (map f (rev [0..<Suc r])) \<noteq> [] \<Longrightarrow>
     \<exists>j\<le>r. f j \<noteq> [] \<and> hd (concat (map f (rev [0..<Suc r]))) = hd (f j)
          \<and> (\<forall>i. j < i \<and> i \<le> r \<longrightarrow> f i = [])"
proof (induction r)
  case 0
  then show ?case by simp
next
  case (Suc r)
  have e: "concat (map f (rev [0..<Suc (Suc r)])) = f (Suc r) @ concat (map f (rev [0..<Suc r]))"
    by simp
  show ?case
  proof (cases "f (Suc r) = []")
    case False
    then show ?thesis unfolding e by (intro exI[of _ "Suc r"]) auto
  next
    case True
    with Suc.prems have ne: "concat (map f (rev [0..<Suc r])) \<noteq> []" unfolding e by simp
    from Suc.IH[OF ne] obtain j where j: "j \<le> r" "f j \<noteq> []"
        "hd (concat (map f (rev [0..<Suc r]))) = hd (f j)" "\<forall>i. j < i \<and> i \<le> r \<longrightarrow> f i = []"
      by blast
    have "\<forall>i. j < i \<and> i \<le> Suc r \<longrightarrow> f i = []"
      using j(4) True by (metis le_SucE)
    with j True show ?thesis unfolding e by (intro exI[of _ j]) auto
  qed
qed

lemma star_hd:
  assumes "match_seq (Star (NotIn '','') # rs) s \<noteq> []"
  shows "\<exists>j\<le>comma_run s. match_seq rs (drop j s) \<noteq> []
           \<and> hd (match_seq (Star (NotIn '','') # rs) s) = j + hd (match_seq rs (drop j s))
           \<and> (\<forall>i. j < i \<and> i \<le> comma_run s \<longrightarrow> match_seq rs (drop i s) = [])"
proof -
  let ?f = "\<lambda>k. map (\<lambda>j. k + j) (match_seq rs (drop k s))"
  have am: "atom_match (NotIn '','') = (\<lambda>d. d \<noteq> CHR '','')"
    by (rule ext) (rule atom_match_not_comma)
  have e: "match_seq (Star (NotIn '','') # rs) s = concat (map ?f (rev [0..<Suc (comma_run s)]))"
    by (simp add: am comma_run_def del: upt_Suc)
  from assms have "concat (map ?f (rev [0..<Suc (comma_run s)])) \<noteq> []" unfolding e .
  from concat_desc_hd[OF this] obtain j where j: "j \<le> comma_run s" "?f j \<noteq> []"
      "hd (concat (map ?f (rev [0..<Suc (comma_run s)]))) = hd (?f j)"
      "\<forall>i. j < i \<and> i \<le> comma_run s \<longrightarrow> ?f i = []"
    by blast
  from j(2) have ne: "match_seq rs (drop j s) \<noteq> []" by simp
  then have "hd (?f j) = j + hd (match_seq rs (drop j s))" by (simp add: hd_map)
  with j ne show ?thesis unfolding e by (intro exI[of _ j]) auto
qed

lemma space_facts:
  assumes "isspace d"
  shows "lower d \<noteq> CHR ''q''" "lower d \<noteq> CHR ''u''" "lower d \<noteq> CHR ''e''"
    "lower d \<noteq> CHR 0x27" "\<not> isword d"
  using assms
  unfolding lower_eq_iff of_char_lower isspace_def isword_def isalnum_def Let_def
  by (auto simp: of_char_eq_iff[symmetric, where 'a = nat] simp del: of_char_eq_iff)

lemma elision_cases:
  "match_ends elision_regex (sp # a # b # c # rest) =
     (if isspace sp \<and> lower a = CHR ''q'' \<and> lower b = CHR ''u'' then
        (if lower c = CHR ''e'' then [4]
         else if lower c = CHR 0x27 then map (\<lambda>k. 4 + k) (rev [0..<Suc (length (takeWhile isword rest))])
         else [])
      else [])"
proof -
  have w: "atom_match (Cat CatWord) = isword"
    by (rule ext) (simp add: atom_match_simps)
  have s4: "\<And>xs. map Suc (map Suc (map Suc (map Suc xs))) = map (\<lambda>k. 4 + k) xs"
    by (simp add: comp_def)
  show ?thesis
    by (simp only: elision_regex_def match_ends.simps match_alt.simps match_seq_atom_gen
          match_seq_single atom_match_simps lower_q append_Nil2 w s4 split: if_splits)
       (auto simp: lower_q)
qed

lemma elision_short:
  "length s < 4 \<Longrightarrow> match_ends elision_regex s = []"
proof -
  assume "length s < 4"
  then consider "s = []" | a where "s = [a]" | a b where "s = [a, b]" | a b c where "s = [a, b, c]"
    by (cases s rule: list.exhaust; cases "tl s"; cases "tl (tl s)"; cases "tl (tl (tl s))") auto
  then show ?thesis
    by cases (simp_all add: elision_regex_def match_seq_atom_gen)
qed

lemma elision_members:
  assumes "x \<in> set (match_ends elision_regex s)"
  shows "\<exists>sp a b c rest. s = sp # a # b # c # rest \<and> isspace sp \<and> lower a = CHR ''q''
           \<and> lower b = CHR ''u'' \<and> (lower c = CHR ''e'' \<or> lower c = CHR 0x27)
           \<and> 4 \<le> x \<and> x \<le> 4 + length (takeWhile isword rest)
           \<and> x \<le> hd (match_ends elision_regex s)"
proof -
  have "\<not> length s < 4" using assms elision_short[of s] by auto
  then obtain sp a b c rest where s: "s = sp # a # b # c # rest"
    by (cases s rule: list.exhaust; cases "tl s"; cases "tl (tl s)"; cases "tl (tl (tl s))") auto
  have h: "hd (map (\<lambda>k. 4 + k) (rev [0..<Suc n])) = 4 + n" for n :: nat
    by simp
  show ?thesis
    using assms unfolding s elision_cases
    by (auto split: if_splits simp: h simp del: upt_Suc)
qed

lemma elision_later:
  assumes "x \<in> set (match_ends elision_regex u)" "match_ends elision_regex (drop d u) \<noteq> []"
  shows "x \<le> d + hd (match_ends elision_regex (drop d u))"
proof (cases "d = 0")
  case True
  then show ?thesis using elision_members[OF assms(1)] by auto
next
  case False
  from elision_members[OF assms(1)] obtain sp a b c rest where
    u: "u = sp # a # b # c # rest" "lower a = CHR ''q''" "lower b = CHR ''u''"
       "lower c = CHR ''e'' \<or> lower c = CHR 0x27" "x \<le> 4 + length (takeWhile isword rest)"
    by blast
  from assms(2) obtain y where "y \<in> set (match_ends elision_regex (drop d u))"
    by (cases "match_ends elision_regex (drop d u)") auto
  from elision_members[OF this] obtain sp' rest' where
    v: "drop d u = sp' # rest'" "isspace sp'" "4 \<le> hd (match_ends elision_regex (drop d u))"
    by (metis hd_in_set assms(2) elision_members)
  have dl: "d < length u" using v(1) by (metis drop_eq_Nil list.distinct(1) not_le)
  have sp': "u ! d = sp'" using v(1) dl by (metis nth_via_drop)
  have "d \<noteq> 1" "d \<noteq> 2" "d \<noteq> 3"
    using sp' u(1-4) space_facts[OF v(2)] by auto
  with False have d4: "4 \<le> d" by simp
  from d4 have "\<exists>m. d = Suc (Suc (Suc (Suc m)))" by presburger
  then obtain m where m: "d = Suc (Suc (Suc (Suc m)))" by blast
  have r: "rest ! (d - 4) = sp'" "d - 4 < length rest"
    using sp' dl unfolding u(1) m by simp_all
  have "length (takeWhile isword rest) \<le> d - 4"
    using takeWhile_le_index[OF r(2), of isword] r(1) space_facts(5)[OF v(2)] by simp
  with u(5) d4 show ?thesis by simp
qed

lemma priority_mono:
  assumes "tail = [] \<or> tail = [elision_regex]"
  shows "k \<le> k' \<Longrightarrow> k' \<le> comma_run s \<Longrightarrow>
     x \<in> set (match_seq (map unit_regex us @ tail) (drop k s)) \<Longrightarrow>
     match_seq (map unit_regex us @ tail) (drop k' s) \<noteq> [] \<Longrightarrow>
     k + x \<le> k' + hd (match_seq (map unit_regex us @ tail) (drop k' s))"
proof (induction us arbitrary: s k k' x)
  case Nil
  show ?case
  proof (cases "tail = []")
    case True
    with Nil show ?thesis by simp
  next
    case False
    with assms have tail: "tail = [elision_regex]" by simp
    have d: "drop k' s = drop (k' - k) (drop k s)" using Nil(1) by simp
    from Nil(3,4) have "x \<in> set (match_ends elision_regex (drop k s))"
        "match_ends elision_regex (drop (k' - k) (drop k s)) \<noteq> []"
      unfolding tail d by (simp_all add: match_seq_single)
    from elision_later[OF this] Nil(1) show ?thesis
      unfolding tail d by (simp add: match_seq_single)
  qed
next
  case (Cons u us)
  let ?rs = "map unit_regex us @ tail"
  show ?case
  proof (cases u)
    case (UChar c)
    have rs: "map unit_regex (u # us) @ tail = Atom (Lit c) # ?rs"
      using UChar by (simp add: unit_regex_def)
    from Cons.prems(3) have "drop k s \<noteq> []"
      unfolding rs by (auto simp: match_seq_atom_gen)
    then have kl: "k < length s" by simp
    from Cons.prems(4) have "drop k' s \<noteq> []"
      unfolding rs by (auto simp: match_seq_atom_gen)
    then have kl': "k' < length s" by simp
    have dk: "drop k s = s ! k # drop (Suc k) s" using kl by (simp add: Cons_nth_drop_Suc)
    have dk': "drop k' s = s ! k' # drop (Suc k') s" using kl' by (simp add: Cons_nth_drop_Suc)
    from Cons.prems(3) obtain y where y: "atom_match (Lit c) (s ! k)" "x = Suc y"
        "y \<in> set (match_seq ?rs (drop (Suc k) s))"
      unfolding rs dk by (auto simp: match_seq_atom_gen split: if_splits)
    from Cons.prems(4) have m': "atom_match (Lit c) (s ! k')"
        "match_seq ?rs (drop (Suc k') s) \<noteq> []"
        "hd (match_seq (map unit_regex (u # us) @ tail) (drop k' s))
           = Suc (hd (match_seq ?rs (drop (Suc k') s)))"
      unfolding rs dk' by (auto simp: match_seq_atom_gen hd_map split: if_splits)
    show ?thesis
    proof (cases "c = CHR '',''")
      case True
      then have "s ! k = CHR '',''" "s ! k' = CHR '',''"
        using y(1) m'(1) by (simp_all add: atom_match_simps lower_comma lower_q)
      then have "k = comma_run s" "k' = comma_run s"
        using comma_run_at_comma[of k s] comma_run_at_comma[of k' s] Cons.prems(1,2) kl kl' by auto
      then have e: "k = k'" by simp
      have "0 + y \<le> 0 + hd (match_seq ?rs (drop 0 (drop (Suc k') s)))"
        by (rule Cons.IH) (use y(3) m'(2) e in simp_all)
      then show ?thesis using y(2) m'(3) e by simp
    next
      case False
      have "s ! k' \<noteq> CHR '',''"
      proof
        assume "s ! k' = CHR '',''"
        with m'(1) have "lower c = CHR '',''" by (simp add: atom_match_simps lower_q)
        with False show False by (simp add: lower_comma)
      qed
      then have "Suc k' \<le> comma_run s"
        using comma_run_not_comma[of k' s] Cons.prems(2) kl' by simp
      from Cons.IH[OF _ this y(3) m'(2)] Cons.prems(1)
      have "Suc k + y \<le> Suc k' + hd (match_seq ?rs (drop (Suc k') s))" by simp
      then show ?thesis using y(2) m'(3) by simp
    qed
  next
    case UPlaceholder
    have rs: "map unit_regex (u # us) @ tail = Star (NotIn '','') # ?rs"
      using UPlaceholder by (simp add: unit_regex_def)
    have am: "atom_match (NotIn '','') = (\<lambda>d. d \<noteq> CHR '','')"
      by (rule ext) (rule atom_match_not_comma)
    have kr: "k \<le> comma_run s" using Cons.prems(1,2) by simp
    from Cons.prems(3) obtain j y where j: "j \<le> comma_run (drop k s)"
        "y \<in> set (match_seq ?rs (drop j (drop k s)))" "x = j + y"
      unfolding rs match_seq_star_set am comma_run_def by blast
    have pj: "k + j \<le> comma_run s" using j(1) kr by (simp add: comma_run_drop)
    from star_hd[OF Cons.prems(4)[unfolded rs]] obtain j' where j':
        "j' \<le> comma_run (drop k' s)" "match_seq ?rs (drop j' (drop k' s)) \<noteq> []"
        "hd (match_seq (Star (NotIn '','') # ?rs) (drop k' s))
           = j' + hd (match_seq ?rs (drop j' (drop k' s)))"
        "\<forall>i. j' < i \<and> i \<le> comma_run (drop k' s) \<longrightarrow> match_seq ?rs (drop i (drop k' s)) = []"
      by blast
    have pj': "k' + j' \<le> comma_run s" using j'(1) Cons.prems(2) by (simp add: comma_run_drop)
    have le: "k + j \<le> k' + j'"
    proof (rule ccontr)
      assume "\<not> k + j \<le> k' + j'"
      then have g: "k' + j' < k + j" by simp
      let ?i = "k + j - k'"
      have "j' < ?i" "?i \<le> comma_run (drop k' s)"
        using g pj Cons.prems(2) by (simp_all add: comma_run_drop)
      with j'(4) have "match_seq ?rs (drop ?i (drop k' s)) = []" by blast
      moreover have "drop ?i (drop k' s) = drop j (drop k s)" using g by (simp add: add.commute)
      ultimately show False using j(2) by simp
    qed
    have "(k + j) + y \<le> (k' + j') + hd (match_seq ?rs (drop (k' + j') s))"
      by (rule Cons.IH[OF le pj']) (use j(2) j'(2) in \<open>simp_all add: add.commute\<close>)
    then show ?thesis using j(3) j'(3) unfolding rs by (simp add: add.commute)
  qed
qed

lemma lower_space: "lower d = CHR '' '' \<longleftrightarrow> d = CHR '' ''"
  unfolding lower_eq_iff of_char_lower
  by (auto simp: Let_def of_char_eq_iff[symmetric, where 'a = nat] simp del: of_char_eq_iff)

lemma lower_placeholder: "map lower ''[XXX]'' = ''[xxx]''"
  by code_simp

lemma unit_src_simps: "unit_src (UChar c) = [c]" "unit_src UPlaceholder = ''[XXX]''"
  by (simp_all add: unit_src_def)

lemma unit_regex_simps:
  "unit_regex (UChar c) = Atom (Lit c)" "unit_regex UPlaceholder = Star (NotIn '','')"
  by (simp_all add: unit_regex_def)

lemma accept_units:
  "map lower n = map lower (concat (map unit_src us)) \<Longrightarrow> k \<in> set (match_seq tail post) \<Longrightarrow>
     length n + k \<in> set (match_seq (map unit_regex us @ tail) (n @ post))"
proof (induction us arbitrary: n)
  case Nil
  then show ?case by simp
next
  case (Cons u us)
  show ?case
  proof (cases u)
    case (UChar c)
    with Cons.prems(1) obtain d n' where n: "n = d # n'" "lower d = lower c"
        "map lower n' = map lower (concat (map unit_src us))"
      by (cases n) (auto simp: unit_src_simps)
    from Cons.IH[OF n(3) Cons.prems(2)] show ?thesis
      using UChar n(1,2) by (simp add: unit_regex_simps match_seq_atom_gen atom_match_simps)
  next
    case UPlaceholder
    with Cons.prems(1) have "map lower n = ''[xxx]'' @ map lower (concat (map unit_src us))"
      by (simp add: unit_src_simps lower_placeholder[simplified])
    then have "\<exists>n5 n'. n = n5 @ n' \<and> ''[xxx]'' = map lower n5
        \<and> map lower (concat (map unit_src us)) = map lower n'"
      by (simp only: map_eq_append_conv)
    then obtain n5 n' where n: "n = n5 @ n'" "map lower n5 = ''[xxx]''"
        "map lower n' = map lower (concat (map unit_src us))"
      by metis
    have "length (map lower n5) = length ''[xxx]''" unfolding n(2) ..
    then have l5: "length n5 = 5" by simp
    have nc: "\<forall>d \<in> set n5. d \<noteq> CHR '',''"
    proof
      fix d assume "d \<in> set n5"
      then have "lower d \<in> set (map lower n5)" by simp
      then have "lower d \<in> set ''[xxx]''" unfolding n(2) .
      then show "d \<noteq> CHR '',''" by (auto simp: lower_q)
    qed
    have am: "atom_match (NotIn '','') = (\<lambda>d. d \<noteq> CHR '','')"
      by (rule ext) (rule atom_match_not_comma)
    have "takeWhile (\<lambda>d. d \<noteq> CHR '','') (n5 @ n' @ post) = n5 @ takeWhile (\<lambda>d. d \<noteq> CHR '','') (n' @ post)"
      using nc by (simp add: takeWhile_append2)
    then have r: "5 \<le> length (takeWhile (atom_match (NotIn '','')) (n @ post))"
      unfolding am n(1) using l5 by simp
    have d: "drop 5 (n @ post) = n' @ post" unfolding n(1) using l5 by simp
    have "length n' + k \<in> set (match_seq (map unit_regex us @ tail) (drop 5 (n @ post)))"
      unfolding d by (rule Cons.IH[OF n(3) Cons.prems(2)])
    with r have m: "5 + (length n' + k) \<in> set (match_seq (Star (NotIn '','') # map unit_regex us @ tail) (n @ post))"
      unfolding match_seq_star_set by blast
    have e: "map unit_regex (u # us) @ tail = Star (NotIn '','') # map unit_regex us @ tail"
      using UPlaceholder by (simp add: unit_regex_simps)
    have len: "length n + k = 5 + (length n' + k)" using n(1) l5 by simp
    show ?thesis unfolding e len by (rule m)
  qed
qed

lemma lower_sp: "lower CHR '' '' = CHR '' ''"
  by (simp add: lower_def)

lemma accept_phrase:
  assumes "map lower n = map lower t"
  shows "length n \<in> set (match_ends (spec_regex t) (n @ post))"
proof (cases "suffix '' que'' t")
  case True
  then obtain t' where t: "t = t' @ '' que''" by (auto simp: suffix_def)
  have tk: "take (length t - 4) t = t'" unfolding t by simp
  from assms have "\<exists>n' q4. n = n' @ q4 \<and> map lower t' = map lower n' \<and> map lower '' que'' = map lower q4"
    unfolding t by (simp only: map_append map_eq_append_conv)
  then obtain n' q4 where n: "n = n' @ q4" "map lower n' = map lower t'" "map lower q4 = map lower '' que''"
    by metis
  from n(3) obtain sp a b c where q4: "q4 = [sp, a, b, c]" "lower sp = CHR '' ''"
      "lower a = CHR ''q''" "lower b = CHR ''u''" "lower c = CHR ''e''"
    by (cases q4 rule: list.exhaust; cases "tl q4"; cases "tl (tl q4)"; cases "tl (tl (tl q4))";
        cases "tl (tl (tl (tl q4)))") (auto simp: lower_q lower_sp lower_space)
  have sp: "isspace sp" using q4(2) unfolding lower_space by (simp add: isspace_def)
  have "4 \<in> set (match_seq [elision_regex] (q4 @ post))"
    unfolding match_seq_single q4(1) using sp q4(3-5) by (simp add: elision_cases)
  from accept_units[of n' "spec_units t'" 4 "[elision_regex]" "q4 @ post"] this n(2)
  have "length n' + 4 \<in> set (match_seq (map unit_regex (spec_units t') @ [elision_regex]) (n' @ q4 @ post))"
    by (simp add: units_src)
  moreover have "length n = length n' + 4" unfolding n(1) q4(1) by simp
  ultimately show ?thesis using True unfolding n(1) by (simp add: spec_regex_def tk)
next
  case False
  from accept_units[of n "spec_units t" 0 "[]" post] assms
  show ?thesis using False by (simp add: spec_regex_def units_src)
qed

lemma first_match_full:
  assumes "map lower n = map lower t"
  shows "match_ends (spec_regex t) n \<noteq> [] \<and> hd (match_ends (spec_regex t) n) = length n"
proof -
  from accept_phrase[OF assms, of "[]"] have m: "length n \<in> set (match_ends (spec_regex t) n)"
    by simp
  then have ne: "match_ends (spec_regex t) n \<noteq> []" by auto
  obtain us tail where r: "spec_regex t = Seq (map unit_regex us @ tail)" "tail = [] \<or> tail = [elision_regex]"
    by (cases "suffix '' que'' t") (auto simp: spec_regex_def)
  from m ne have "0 + length n \<le> 0 + hd (match_seq (map unit_regex us @ tail) (drop 0 n))"
    unfolding r(1) by (intro priority_mono[OF r(2)]) simp_all
  moreover have "hd (match_ends (spec_regex t) n) \<le> length n"
    using ne match_bound(1)[of "hd (match_ends (spec_regex t) n)" "spec_regex t" n] by simp
  ultimately show ?thesis using ne unfolding r(1) by simp
qed

lemma finditer_first:
  assumes "match_ends r n \<noteq> []"
  shows "\<exists>rest. finditer r n = (0, hd (match_ends r n)) # rest"
proof -
  from assms obtain k ks where l: "match_ends r n = k # ks" by (cases "match_ends r n") auto
  have "finditer_from r n 0 False =
     (if length n < 0 then []
      else (case find (\<lambda>k. \<not> False \<or> k \<noteq> 0) (match_ends r (drop 0 n)) of
              Some k \<Rightarrow> (0, 0 + k) # finditer_from r n (0 + k) (k = 0)
            | None \<Rightarrow> finditer_from r n (Suc 0) False))"
    by (rule finditer_from.simps)
  then show ?thesis unfolding finditer_def by (simp add: l del: finditer_from.simps)
qed

lemma finds_phrase:
  assumes "map lower n = map lower t"
  shows "\<exists>rest. finditer (spec_regex t) n = (0, length n) # rest"
  using finditer_first[of "spec_regex t" n] first_match_full[OF assms] by simp

lemma match_units_fold:
  "map unit_fold us1 = map unit_fold us2 \<Longrightarrow>
     match_seq (map unit_regex us1 @ tail) s = match_seq (map unit_regex us2 @ tail) s"
proof (induction us1 arbitrary: us2 s)
  case Nil
  then show ?case by simp
next
  case (Cons u us1)
  then obtain v us2' where v: "us2 = v # us2'" "unit_fold u = unit_fold v"
      "map unit_fold us1 = map unit_fold us2'"
    by (cases us2) auto
  have "match_ends (unit_regex u) s = match_ends (unit_regex v) s"
    using v(2) by (cases u; cases v) (simp_all add: unit_fold_def unit_regex_simps atom_match_simps split: list.splits)
  then show ?case using Cons.IH[OF v(3)] v(1) by simp
qed

lemma same_matches_units:
  assumes "map unit_fold (spec_units t1) = map unit_fold (spec_units t2)"
    "suffix '' que'' t1 \<longleftrightarrow> suffix '' que'' t2"
  shows "match_ends (spec_regex t1) s = match_ends (spec_regex t2) s"
proof (cases "suffix '' que'' t1")
  case True
  with assms(2) have T2: "suffix '' que'' t2" by simp
  from True obtain a where a: "t1 = a @ '' que''" by (auto simp: suffix_def)
  from T2 obtain b where b: "t2 = b @ '' que''" by (auto simp: suffix_def)
  have tk: "take (length t1 - 4) t1 = a" "take (length t2 - 4) t2 = b" unfolding a b by simp_all
  from assms(1) have "map unit_fold (spec_units a) = map unit_fold (spec_units b)"
    unfolding a b spec_units_que by simp
  from match_units_fold[OF this, of "[elision_regex]" s] show ?thesis
    using True T2 by (simp add: spec_regex_def tk)
next
  case False
  with assms(2) have "\<not> suffix '' que'' t2" by simp
  with False match_units_fold[OF assms(1), of "[]" s] show ?thesis
    by (simp add: spec_regex_def)
qed

lemma same_spans_units:
  assumes "map unit_fold (spec_units t1) = map unit_fold (spec_units t2)"
    "suffix '' que'' t1 \<longleftrightarrow> suffix '' que'' t2"
  shows "finditer (spec_regex t1) n = finditer (spec_regex t2) n"
  unfolding finditer_def
  by (rule finditer_from_cong) (rule same_matches_units[OF assms])

subsection \<open>Case-insensitive matching, case-sensitive capping\<close>

text \<open>
  Claim C10. For any two phrases that differ only in the case of their letters, the two
  patterns match the same texts in this sense: on every spelling of the phrase (every
  text equal to it up to case) both find the whole text as their first match, and both
  match it when more text follows. When the two phrases have their placeholders at the
  same places (in particular when they have none) and both or neither end in
  \<open> que\<close>, the two patterns find the same spans in every narrative; a pair such as
  \<open>parce que\<close> and \<open>parce QUE\<close> need not, since only the first gets the elision
  alternative. The cap counts the phrases under different keys: for two different
  phrases, each has its first \<open>cap\<close> occurrences accepted, and the accepted triplets of
  the one are the same with and without the raw triplets of the other.
\<close>

theorem case_sensitive_cap:
  "(map lower t1 = map lower t2 \<and> map lower n = map lower t1 \<longrightarrow>
      (\<exists>r1 r2 rest1 rest2.
         re_compile (pattern_str t1) = Some r1 \<and> re_compile (pattern_str t2) = Some r2
         \<and> finditer r1 n = (0, length n) # rest1 \<and> finditer r2 n = (0, length n) # rest2
         \<and> length n \<in> set (match_ends r1 (n @ post)) \<and> length n \<in> set (match_ends r2 (n @ post))))
   \<and> (map unit_fold (spec_units t1) = map unit_fold (spec_units t2)
        \<and> (suffix '' que'' t1 \<longleftrightarrow> suffix '' que'' t2) \<longrightarrow>
      (\<exists>r1 r2. re_compile (pattern_str t1) = Some r1 \<and> re_compile (pattern_str t2) = Some r2
         \<and> finditer r1 narrative = finditer r2 narrative))
   \<and> (map lower t1 = map lower t2 \<and> CHR ''['' \<notin> set t1 \<and> CHR ''['' \<notin> set t2
      \<and> (suffix '' que'' t1 \<longleftrightarrow> suffix '' que'' t2) \<longrightarrow>
      (\<exists>r1 r2. re_compile (pattern_str t1) = Some r1 \<and> re_compile (pattern_str t2) = Some r2
         \<and> finditer r1 narrative = finditer r2 narrative))
   \<and> (t1 \<noteq> t2 \<longrightarrow>
        occurrences t1 (final_triplets (usage_cap raw cap)) = take (nat cap) (occurrences t1 raw)
      \<and> occurrences t2 (final_triplets (usage_cap raw cap)) = take (nat cap) (occurrences t2 raw)
      \<and> occurrences t1 (final_triplets (usage_cap raw cap))
          = occurrences t1 (final_triplets (usage_cap (filter (\<lambda>x. transition x \<noteq> t2) raw) cap)))
   \<and> finditer (spec_regex ''parce que'') ''il dort parce qu'on veille'' = [(8, 19)]
   \<and> finditer (spec_regex ''parce QUE'') ''il dort parce qu'on veille'' = []"
proof -
  have c: "re_compile (pattern_str t1) = Some (spec_regex t1)"
      "re_compile (pattern_str t2) = Some (spec_regex t2)"
    by (rule compile_pattern_str)+
  have p: "\<exists>r1 r2 rest1 rest2.
         re_compile (pattern_str t1) = Some r1 \<and> re_compile (pattern_str t2) = Some r2
         \<and> finditer r1 n = (0, length n) # rest1 \<and> finditer r2 n = (0, length n) # rest2
         \<and> length n \<in> set (match_ends r1 (n @ post)) \<and> length n \<in> set (match_ends r2 (n @ post))"
    if h: "map lower t1 = map lower t2" "map lower n = map lower t1"
  proof -
    from h have h2: "map lower n = map lower t2" by simp
    from finds_phrase[OF h(2)] finds_phrase[OF h2] accept_phrase[OF h(2), of post]
      accept_phrase[OF h2, of post] c
    show ?thesis by blast
  qed
  have u: "\<exists>r1 r2. re_compile (pattern_str t1) = Some r1 \<and> re_compile (pattern_str t2) = Some r2
         \<and> finditer r1 narrative = finditer r2 narrative"
    if "map unit_fold (spec_units t1) = map unit_fold (spec_units t2)"
      "suffix '' que'' t1 \<longleftrightarrow> suffix '' que'' t2"
    using same_spans_units[OF that, of narrative] c by blast
  have a: "\<exists>r1 r2. re_compile (pattern_str t1) = Some r1 \<and> re_compile (pattern_str t2) = Some r2
         \<and> finditer r1 narrative = finditer r2 narrative"
    if "map lower t1 = map lower t2" "CHR ''['' \<notin> set t1" "CHR ''['' \<notin> set t2"
      "suffix '' que'' t1 \<longleftrightarrow> suffix '' que'' t2"
    using same_spans[OF that, of narrative] c by blast
  have b: "occurrences t1 (final_triplets (usage_cap raw cap))
          = occurrences t1 (final_triplets (usage_cap (filter (\<lambda>x. transition x \<noteq> t2) raw) cap))"
    if "t1 \<noteq> t2"
    using usage_cap_invariant[of t1 raw cap]
      usage_cap_invariant[of t1 "filter (\<lambda>x. transition x \<noteq> t2) raw" cap]
      occurrences_filter_other[OF that, of raw]
    by simp
  have d1: "finditer (spec_regex ''parce que'') ''il dort parce qu'on veille'' = [(8, 19)]"
    by code_simp
  have d2: "finditer (spec_regex ''parce QUE'') ''il dort parce qu'on veille'' = []"
    by code_simp
  show ?thesis
    using p u a b d1 d2 usage_cap_invariant[of t1 raw cap] usage_cap_invariant[of t2 raw cap]
    by blast
qed

theorem case_sensitive_cap_witness:
  "map lower ''parce que'' = map lower ''parce QUE''
   \<and> map lower ''Parce Que'' = map lower ''parce que''
   \<and> finditer (spec_regex ''parce que'') ''Parce Que'' = [(0, 9)]
   \<and> finditer (spec_regex ''parce QUE'') ''Parce Que'' = [(0, 9)]
   \<and> 9 \<in> set (match_ends (spec_regex ''parce que'') (''Parce Que'' @ '' la nuit tombe''))
   \<and> 9 \<in> set (match_ends (spec_regex ''parce QUE'') (''Parce Que'' @ '' la nuit tombe''))
   \<and> map unit_fold (spec_units ''A rejoint [XXX], selon'')
       = map unit_fold (spec_units ''a rejoint [XXX], selon'')
   \<and> finditer (spec_regex ''A rejoint [XXX], selon'') ex_narrative_placeholder = [(9, 40)]
   \<and> finditer (spec_regex ''a rejoint [XXX], selon'') ex_narrative_placeholder = [(9, 40)]
   \<and> map lower ''Par ailleurs'' = map lower ''par ailleurs''
   \<and> ''Par ailleurs'' \<noteq> ''par ailleurs''
   \<and> finditer (spec_regex ''Par ailleurs'') ex_case_narrative = [(0, 12), (24, 36)]
   \<and> finditer (spec_regex ''par ailleurs'') ex_case_narrative = [(0, 12), (24, 36)]
   \<and> extract_all_raw_triplets ex_case_narrative [''Par ailleurs'', ''par ailleurs''] = Inr ex_case_raw
   \<and> final_triplets (usage_cap ex_case_raw 1)
       = [mk_triplet '''' ''Par ailleurs'' '', il pleut. par ailleurs, il vente.'',
          mk_triplet '''' ''par ailleurs'' '', il pleut. par ailleurs, il vente.'']
   \<and> occurrences ''Par ailleurs'' (final_triplets (usage_cap ex_case_raw 1))
       = [mk_triplet '''' ''Par ailleurs'' '', il pleut. par ailleurs, il vente.'']
   \<and> occurrences ''par ailleurs'' (final_triplets (usage_cap ex_case_raw 1))
       = [mk_triplet '''' ''par ailleurs'' '', il pleut. par ailleurs, il vente.'']"
proof -
  have c: "\<And>t. re_compile (pattern_str t) = Some (spec_regex t)"
    by (rule compile_pattern_str)
  have q: "map lower ''parce que'' = map lower ''parce QUE''"
      "map lower ''Parce Que'' = map lower ''parce que''"
    by code_simp+
  have qf: "finditer (spec_regex ''parce QUE'') ''Parce Que'' = [(0, 9)]"
    by code_simp
  from case_sensitive_cap[of "''parce que''" "''parce QUE''" "''Parce Que''" "'' la nuit tombe''"
      ex_case_narrative ex_case_raw 1] q
  obtain r1 r2 rest1 rest2 where r:
      "re_compile (pattern_str ''parce que'') = Some r1" "re_compile (pattern_str ''parce QUE'') = Some r2"
      "finditer r1 ''Parce Que'' = (0, length ''Parce Que'') # rest1"
      "finditer r2 ''Parce Que'' = (0, length ''Parce Que'') # rest2"
      "length ''Parce Que'' \<in> set (match_ends r1 (''Parce Que'' @ '' la nuit tombe''))"
      "length ''Parce Que'' \<in> set (match_ends r2 (''Parce Que'' @ '' la nuit tombe''))"
    by blast
  from r(1,2) have rr: "r1 = spec_regex ''parce que''" "r2 = spec_regex ''parce QUE''"
    by (simp_all add: c)
  have qf1: "finditer (spec_regex ''parce que'') ''Parce Que'' = [(0, 9)]"
    by code_simp
  have l9: "length ''Parce Que'' = 9" by code_simp
  note qa = r(5,6)[unfolded rr l9]
  have pu: "map unit_fold (spec_units ''A rejoint [XXX], selon'')
       = map unit_fold (spec_units ''a rejoint [XXX], selon'')"
      "suffix '' que'' ''A rejoint [XXX], selon'' \<longleftrightarrow> suffix '' que'' ''a rejoint [XXX], selon''"
    by code_simp+
  have pf: "finditer (spec_regex ''A rejoint [XXX], selon'') ex_narrative_placeholder = [(9, 40)]"
    by code_simp
  from case_sensitive_cap[of "''A rejoint [XXX], selon''" "''a rejoint [XXX], selon''" "[]" "[]"
      ex_narrative_placeholder ex_case_raw 1] pu
  have "finditer (spec_regex ''A rejoint [XXX], selon'') ex_narrative_placeholder
          = finditer (spec_regex ''a rejoint [XXX], selon'') ex_narrative_placeholder"
    by (auto simp: c)
  with pf have pf2: "finditer (spec_regex ''a rejoint [XXX], selon'') ex_narrative_placeholder = [(9, 40)]"
    by simp
  have h: "map lower ''Par ailleurs'' = map lower ''par ailleurs''"
    "CHR ''['' \<notin> set ''Par ailleurs''" "CHR ''['' \<notin> set ''par ailleurs''"
    "suffix '' que'' ''Par ailleurs'' \<longleftrightarrow> suffix '' que'' ''par ailleurs''"
    "''Par ailleurs'' \<noteq> ''par ailleurs''"
    by code_simp+
  have f: "finditer (spec_regex ''Par ailleurs'') ex_case_narrative = [(0, 12), (24, 36)]"
    by code_simp
  have e: "extract_all_raw_triplets ex_case_narrative [''Par ailleurs'', ''par ailleurs''] = Inr ex_case_raw"
    by code_simp
  have o: "take (nat 1) (occurrences ''Par ailleurs'' ex_case_raw)
       = [mk_triplet '''' ''Par ailleurs'' '', il pleut. par ailleurs, il vente.'']"
    "take (nat 1) (occurrences ''par ailleurs'' ex_case_raw)
       = [mk_triplet '''' ''par ailleurs'' '', il pleut. par ailleurs, il vente.'']"
    by code_simp+
  have fin: "final_triplets (usage_cap ex_case_raw 1)
       = [mk_triplet '''' ''Par ailleurs'' '', il pleut. par ailleurs, il vente.'',
          mk_triplet '''' ''par ailleurs'' '', il pleut. par ailleurs, il vente.'']"
    by code_simp
  from case_sensitive_cap[of "''Par ailleurs''" "''par ailleurs''" "[]" "[]"
      ex_case_narrative ex_case_raw 1] h
  have t: "(\<exists>r1 r2. re_compile (pattern_str ''Par ailleurs'') = Some r1
              \<and> re_compile (pattern_str ''par ailleurs'') = Some r2
              \<and> finditer r1 ex_case_narrative = finditer r2 ex_case_narrative)"
    and t2: "occurrences ''Par ailleurs'' (final_triplets (usage_cap ex_case_raw 1))
              = take (nat 1) (occurrences ''Par ailleurs'' ex_case_raw)"
      "occurrences ''par ailleurs'' (final_triplets (usage_cap ex_case_raw 1))
              = take (nat 1) (occurrences ''par ailleurs'' ex_case_raw)"
    by blast+
  from t have "finditer (spec_regex ''Par ailleurs'') ex_case_narrative
                  = finditer (spec_regex ''par ailleurs'') ex_case_narrative"
    by (simp add: c)
  with f have f2: "finditer (spec_regex ''par ailleurs'') ex_case_narrative = [(0, 12), (24, 36)]"
    by simp
  show ?thesis
    using q qf1 qf qa pu(1) pf pf2 h(1,5) f f2 e fin t2 unfolding o by blast
qed

lemma sort_listing_unique:
  fixes xs ys :: "string list"
  assumes "distinct xs" "distinct ys" "set xs = set ys"
  shows "sort xs = sort ys"
  by (rule sorted_distinct_set_unique) (use assms in simp_all)

lemma document_raw_triplets_total: "\<exists>raw. document_raw_triplets doc = Inr raw"
proof -
  obtain as where "extract_articles_from_docx doc = Inr as"
    by (cases doc) (auto simp: extract_articles_from_docx_def articles_from_blocks_eq)
  then show ?thesis by (simp add: document_raw_triplets_def collect_eq)
qed

lemma generate_output_files_exists:
  "generate_output_files raw cap
     \<lparr>fewshot_examples = final_triplets (usage_cap raw cap),
      transitions_only = sort (remdups (map transition (final_triplets (usage_cap raw cap)))),
      fewshots_rejected = rejected_fewshots_content (usage_cap raw cap),
      transitions_only_rejected = rejected_transitions_only_content raw\<rparr>"
  by (rule generate_output_files.intros) simp_all

lemma generate_output_files_functional:
  assumes "generate_output_files raw cap o1" "generate_output_files raw cap o2"
  shows "o1 = o2"
proof -
  from assms(1) obtain u1 where u1: "distinct u1"
      "set u1 = set (map transition (final_triplets (usage_cap raw cap)))"
      "o1 = \<lparr>fewshot_examples = final_triplets (usage_cap raw cap),
      transitions_only = sort u1,
      fewshots_rejected = rejected_fewshots_content (usage_cap raw cap),
      transitions_only_rejected = rejected_transitions_only_content raw\<rparr>"
    by (auto elim: generate_output_files.cases)
  from assms(2) obtain u2 where u2: "distinct u2"
      "set u2 = set (map transition (final_triplets (usage_cap raw cap)))"
      "o2 = \<lparr>fewshot_examples = final_triplets (usage_cap raw cap),
      transitions_only = sort u2,
      fewshots_rejected = rejected_fewshots_content (usage_cap raw cap),
      transitions_only_rejected = rejected_transitions_only_content raw\<rparr>"
    by (auto elim: generate_output_files.cases)
  have "sort u1 = sort u2" using u1(1,2) u2(1,2) by (intro sort_listing_unique) simp_all
  then show ?thesis using u1(3) u2(3) by simp
qed

subsection \<open>Determinism\<close>

text \<open>
  Claim C9. Two runs on the same raw triplets with the same cap give the same accepted
  triplets in the same order, the same sorted transitions-only list, and the same
  cap-exceeded and raw-duplicate reports, whatever the order in which the set of
  transitions is enumerated in each run; so do two runs of the whole pipeline on the
  same document, and a run always has a result.
\<close>

theorem pipeline_deterministic:
  "(generate_output_files raw cap o1 \<and> generate_output_files raw cap o2 \<longrightarrow> o1 = o2)
   \<and> (simulate_streamlit_app_logic doc r1 \<and> simulate_streamlit_app_logic doc r2 \<longrightarrow> r1 = r2)
   \<and> (\<exists>r. simulate_streamlit_app_logic doc r)
   \<and> (generate_output_files raw cap o1 \<longrightarrow>
        fewshot_examples o1 = final_triplets (usage_cap raw cap)
        \<and> transitions_only o1 = sort (remdups (map transition (final_triplets (usage_cap raw cap))))
        \<and> fewshots_rejected o1 = rejected_fewshots_content (usage_cap raw cap)
        \<and> transitions_only_rejected o1 = rejected_transitions_only_content raw)"
proof -
  have s: "r1 = r2" if h: "simulate_streamlit_app_logic doc r1" "simulate_streamlit_app_logic doc r2"
  proof -
    obtain raw' where raw': "document_raw_triplets doc = Inr raw'"
      using document_raw_triplets_total by blast
    from h(1) raw' obtain o1' where o1: "r1 = Inr o1'" "generate_output_files raw' 3 o1'"
      by (auto elim: simulate_streamlit_app_logic.cases)
    from h(2) raw' obtain o2' where o2: "r2 = Inr o2'" "generate_output_files raw' 3 o2'"
      by (auto elim: simulate_streamlit_app_logic.cases)
    show ?thesis using o1 o2 generate_output_files_functional by blast
  qed
  have e: "\<exists>r. simulate_streamlit_app_logic doc r"
    using document_raw_triplets_total[of doc] generate_output_files_exists
      simulate_streamlit_app_logic.intros(2)
    by blast
  have v: "fewshot_examples o1 = final_triplets (usage_cap raw cap)
        \<and> transitions_only o1 = sort (remdups (map transition (final_triplets (usage_cap raw cap))))
        \<and> fewshots_rejected o1 = rejected_fewshots_content (usage_cap raw cap)
        \<and> transitions_only_rejected o1 = rejected_transitions_only_content raw"
    if "generate_output_files raw cap o1"
    using generate_output_files_functional[OF that generate_output_files_exists] by simp
  show ?thesis using s e v generate_output_files_functional by blast
qed

theorem pipeline_deterministic_witness:
  "generate_output_files ex_case_raw 1 (ex_outputs [''par ailleurs'', ''Par ailleurs''])
   \<and> generate_output_files ex_case_raw 1 (ex_outputs [''Par ailleurs'', ''par ailleurs''])
   \<and> ex_outputs [''par ailleurs'', ''Par ailleurs''] = ex_outputs [''Par ailleurs'', ''par ailleurs'']
   \<and> transitions_only (ex_outputs [''par ailleurs'', ''Par ailleurs''])
       = [''Par ailleurs'', ''par ailleurs'']
   \<and> fewshots_rejected (ex_outputs [''par ailleurs'', ''Par ailleurs''])
       = [''Transition: '' @ [CHR 0x27] @ ''Par ailleurs'' @ [CHR 0x27] @ '' used 2 times (exceeded by 1)'',
          ''Transition: '' @ [CHR 0x27] @ ''par ailleurs'' @ [CHR 0x27] @ '' used 2 times (exceeded by 1)'']
   \<and> transitions_only_rejected (ex_outputs [''par ailleurs'', ''Par ailleurs''])
       = [''Transition: '' @ [CHR 0x27] @ ''Par ailleurs'' @ [CHR 0x27] @ '' used 2 times'',
          ''Transition: '' @ [CHR 0x27] @ ''par ailleurs'' @ [CHR 0x27] @ '' used 2 times'']
   \<and> simulate_streamlit_app_logic (Some ex_paras)
         (Inr (ex_doc_outputs [''parce que'', ''a rejoint [XXX], selon'']))
   \<and> simulate_streamlit_app_logic (Some ex_paras)
         (Inr (ex_doc_outputs [''a rejoint [XXX], selon'', ''parce que'']))
   \<and> ex_doc_outputs [''parce que'', ''a rejoint [XXX], selon'']
       = ex_doc_outputs [''a rejoint [XXX], selon'', ''parce que'']
   \<and> transitions_only (ex_doc_outputs [''parce que'', ''a rejoint [XXX], selon''])
       = [''a rejoint [XXX], selon'', ''parce que'']"
proof -
  have s: "set (map transition (final_triplets (usage_cap ex_case_raw 1)))
            = set [''par ailleurs'', ''Par ailleurs'']"
    by code_simp
  have d: "distinct [''par ailleurs'', ''Par ailleurs'']" "distinct [''Par ailleurs'', ''par ailleurs'']"
    by code_simp+
  have g1: "generate_output_files ex_case_raw 1 (ex_outputs [''par ailleurs'', ''Par ailleurs''])"
    unfolding ex_outputs_def by (rule generate_output_files.intros) (use s d in simp_all)
  have g2: "generate_output_files ex_case_raw 1 (ex_outputs [''Par ailleurs'', ''par ailleurs''])"
    unfolding ex_outputs_def by (rule generate_output_files.intros) (use s d in auto)
  have v: "transitions_only (ex_outputs [''par ailleurs'', ''Par ailleurs''])
       = [''Par ailleurs'', ''par ailleurs'']"
    "fewshots_rejected (ex_outputs [''par ailleurs'', ''Par ailleurs''])
       = [''Transition: '' @ [CHR 0x27] @ ''Par ailleurs'' @ [CHR 0x27] @ '' used 2 times (exceeded by 1)'',
          ''Transition: '' @ [CHR 0x27] @ ''par ailleurs'' @ [CHR 0x27] @ '' used 2 times (exceeded by 1)'']"
    "transitions_only_rejected (ex_outputs [''par ailleurs'', ''Par ailleurs''])
       = [''Transition: '' @ [CHR 0x27] @ ''Par ailleurs'' @ [CHR 0x27] @ '' used 2 times'',
          ''Transition: '' @ [CHR 0x27] @ ''par ailleurs'' @ [CHR 0x27] @ '' used 2 times'']"
    "transitions_only (ex_doc_outputs [''parce que'', ''a rejoint [XXX], selon''])
       = [''a rejoint [XXX], selon'', ''parce que'']"
    by code_simp+
  have raw: "document_raw_triplets (Some ex_paras)
       = Inr [mk_triplet ''Le maire'' ''a rejoint [XXX], selon'' ''nos informations.'',
              mk_triplet ''Il est parti'' ''parce que'' ''l'attendait.'']"
    by code_simp
  have fin: "final_triplets (usage_cap
               [mk_triplet ''Le maire'' ''a rejoint [XXX], selon'' ''nos informations.'',
                mk_triplet ''Il est parti'' ''parce que'' ''l'attendait.''] 3)
       = [mk_triplet ''Le maire'' ''a rejoint [XXX], selon'' ''nos informations.'',
          mk_triplet ''Il est parti'' ''parce que'' ''l'attendait.'']"
    "rejected_fewshots_content (usage_cap
               [mk_triplet ''Le maire'' ''a rejoint [XXX], selon'' ''nos informations.'',
                mk_triplet ''Il est parti'' ''parce que'' ''l'attendait.''] 3) = []"
    "rejected_transitions_only_content
               [mk_triplet ''Le maire'' ''a rejoint [XXX], selon'' ''nos informations.'',
                mk_triplet ''Il est parti'' ''parce que'' ''l'attendait.''] = []"
    by code_simp+
  have st: "set [''parce que'', ''a rejoint [XXX], selon'']
       = set (map transition [mk_triplet ''Le maire'' ''a rejoint [XXX], selon'' ''nos informations.'',
          mk_triplet ''Il est parti'' ''parce que'' ''l'attendait.''])"
    "set [''a rejoint [XXX], selon'', ''parce que'']
       = set (map transition [mk_triplet ''Le maire'' ''a rejoint [XXX], selon'' ''nos informations.'',
          mk_triplet ''Il est parti'' ''parce que'' ''l'attendait.''])"
    by code_simp+
  have dd: "distinct [''parce que'', ''a rejoint [XXX], selon'']"
    "distinct [''a rejoint [XXX], selon'', ''parce que'']"
    by code_simp+
  have h1: "generate_output_files
               [mk_triplet ''Le maire'' ''a rejoint [XXX], selon'' ''nos informations.'',
                mk_triplet ''Il est parti'' ''parce que'' ''l'attendait.''] 3
               (ex_doc_outputs [''parce que'', ''a rejoint [XXX], selon''])"
    using generate_output_files.intros[OF dd(1), of
               "[mk_triplet ''Le maire'' ''a rejoint [XXX], selon'' ''nos informations.'',
                mk_triplet ''Il est parti'' ''parce que'' ''l'attendait.'']" 3]
    unfolding fin ex_doc_outputs_def using st(1) by blast
  have h2: "generate_output_files
               [mk_triplet ''Le maire'' ''a rejoint [XXX], selon'' ''nos informations.'',
                mk_triplet ''Il est parti'' ''parce que'' ''l'attendait.''] 3
               (ex_doc_outputs [''a rejoint [XXX], selon'', ''parce que''])"
    using generate_output_files.intros[OF dd(2), of
               "[mk_triplet ''Le maire'' ''a rejoint [XXX], selon'' ''nos informations.'',
                mk_triplet ''Il est parti'' ''parce que'' ''l'attendait.'']" 3]
    unfolding fin ex_doc_outputs_def using st(2) by blast
  have s1: "simulate_streamlit_app_logic (Some ex_paras)
         (Inr (ex_doc_outputs [''parce que'', ''a rejoint [XXX], selon'']))"
    by (rule simulate_streamlit_app_logic.intros(2)[OF raw h1])
  have s2: "simulate_streamlit_app_logic (Some ex_paras)
         (Inr (ex_doc_outputs [''a rejoint [XXX], selon'', ''parce que'']))"
    by (rule simulate_streamlit_app_logic.intros(2)[OF raw h2])
  have "ex_outputs [''par ailleurs'', ''Par ailleurs''] = ex_outputs [''Par ailleurs'', ''par ailleurs'']
      \<and> ex_doc_outputs [''parce que'', ''a rejoint [XXX], selon'']
          = ex_doc_outputs [''a rejoint [XXX], selon'', ''parce que'']"
    using pipeline_deterministic[of ex_case_raw 1 "ex_outputs [''par ailleurs'', ''Par ailleurs'']"
        "ex_outputs [''Par ailleurs'', ''par ailleurs'']" "Some ex_paras"
        "Inr (ex_doc_outputs [''parce que'', ''a rejoint [XXX], selon''])"
        "Inr (ex_doc_outputs [''a rejoint [XXX], selon'', ''parce que''])"] g1 g2 s1 s2
    by blast
  then show ?thesis using g1 g2 v s1 s2 by blast
qed

end
